theory Spec2Isabelle
  imports Main "HOL-Library.AList" "HOL-Library.Sublist"
begin

section \<open>Data model of dirwatcher.py\<close>

text \<open>
  Exceptions that can reach the \<open>try\<close> block of \<open>watch_directory\<close>: the three classes
  the module declares, the built-in ones its statements raise (\<open>extension[0]\<close> on an
  empty string, \<open>del\<close> of a missing key, \<open>time.sleep\<close> of a negative number or of one
  too large for the clock), and what the operating system answers to \<open>os.listdir\<close> and
  \<open>open\<close>.
\<close>

datatype error =
    KeyboardInterrupt
  | FileNotFoundError
  | MagicStringError
  | ExtensionError
  | NoDirectoryError
  | IndexError
  | KeyError
  | ValueError
  | OverflowError
  | OSError

datatype signal = SIGINT | SIGTERM

text \<open>
  What the program emits, in program order: the \<open>logger\<close> calls and the \<open>time.sleep\<close>
  calls. A dictionary is an association list in insertion order, as a Python \<open>dict\<close> is.
\<close>

type_synonym dict = "(string \<times> nat) list"

datatype event =
    InfoMagicFound string string nat
  | InfoRemoved string
  | InfoAdded string
  | DebugCurrDict dict
  | DebugInterrupted
  | ErrorDirNotFound "string option"
  | ErrorNoMagic
  | ErrorExtension "string option"
  | ErrorNoDirectory
  | ErrorSomethingWrong error
  | Sleep int

text \<open>
  The module-level globals \<open>curr_dir_dict\<close>, \<open>prev_dir_dict\<close> and \<open>exit_program\<close>,
  with the two output streams: \<open>events\<close> (logger and sleeps) and \<open>stdout\<close> (the
  \<open>print\<close> of the signal handler).
\<close>

record state =
  curr_dir_dict :: dict
  prev_dir_dict :: dict
  exit_program :: bool
  events :: "event list"
  stdout :: "signal list"

definition init_state :: state where
  "init_state = \<lparr>curr_dir_dict = [], prev_dir_dict = [], exit_program = False,
                 events = [], stdout = []\<rparr>"

text \<open>
  What the operating system answers during one iteration of the loop: \<open>watch_files\<close> is
  the value of the list comprehension over \<open>os.listdir(path)\<close> (the joined paths of the
  regular files) or the exception \<open>os.listdir\<close> raises; \<open>readlines\<close> is \<open>open\<close>
  followed by \<open>f.readlines()\<close>; \<open>signals\<close> are the signals delivered while the
  iteration runs.
\<close>

record env =
  watch_files :: "error + string list"
  readlines :: "string \<Rightarrow> error + string list"
  signals :: "signal list"

datatype control = Continue | Break

datatype status = Running | Returned

section \<open>Helpers of the Python runtime\<close>

text \<open>\<open>magic_string in line\<close>: the substring test of \<open>str\<close>.\<close>

fun str_contains :: "string \<Rightarrow> string \<Rightarrow> bool" where
  "str_contains m [] = (m = [])"
| "str_contains m (c # cs) = (prefix m (c # cs) \<or> str_contains m cs)"

text \<open>\<open>d.get(k, default)\<close>.\<close>

definition dict_get :: "dict \<Rightarrow> string \<Rightarrow> nat \<Rightarrow> nat" where
  "dict_get d k dflt = (case map_of d k of None \<Rightarrow> dflt | Some v \<Rightarrow> v)"

definition keys :: "dict \<Rightarrow> string list" where
  "keys d = map fst d"

text \<open>
  \<open>os.path.splitext(p)[1]\<close> of \<open>posixpath\<close>: the extension is taken in the last
  component of the path, after its leading dots, from its last dot on.
\<close>

definition splitext_ext :: "string \<Rightarrow> string" where
  "splitext_ext p =
     (let base = rev (takeWhile (\<lambda>c. c \<noteq> CHR ''/'') (rev p));
          name = dropWhile (\<lambda>c. c = CHR ''.'') base
      in if CHR ''.'' \<in> set name
         then CHR ''.'' # rev (takeWhile (\<lambda>c. c \<noteq> CHR ''.'') (rev name))
         else [])"

text \<open>Truth value of an optional string: \<open>None\<close> and \<open>""\<close> are false.\<close>

definition truthy :: "string option \<Rightarrow> bool" where
  "truthy x = (x \<noteq> None \<and> x \<noteq> Some [])"

section \<open>The functions of dirwatcher.py\<close>

definition log :: "event \<Rightarrow> state \<Rightarrow> state" where
  "log ev s = s\<lparr>events := events s @ [ev]\<rparr>"

text \<open>
  The \<open>for index in range(start_line, len(contents))\<close> loop of \<open>search_for_magic\<close>:
  the entry is written before the line is tested, and the first match returns.
\<close>

function search_loop :: "string \<Rightarrow> string \<Rightarrow> string list \<Rightarrow> nat \<Rightarrow> state \<Rightarrow> state" where
  "search_loop filename magic_string contents index s =
     (if index < length contents then
        (let s1 = s\<lparr>curr_dir_dict := AList.update filename index (curr_dir_dict s)\<rparr>
         in if str_contains magic_string (contents ! index)
            then log (InfoMagicFound magic_string filename index) s1
            else search_loop filename magic_string contents (Suc index) s1)
      else s)"
  by pat_completeness auto
termination
  by (relation "measure (\<lambda>(f, m, contents, index, s). length contents - index)") auto

declare search_loop.simps [simp del]

definition search_for_magic ::
  "(string \<Rightarrow> error + string list) \<Rightarrow> string \<Rightarrow> nat \<Rightarrow> string \<Rightarrow> state \<Rightarrow> error option \<times> state" where
  "search_for_magic rd filename start_line magic_string s =
     (case rd filename of
        Inl e \<Rightarrow> (Some e, s)
      | Inr lines \<Rightarrow> (None, search_loop filename magic_string ([] # lines) start_line s))"

text \<open>
  \<open>detect_removed_files\<close> walks the keys of \<open>prev_dict\<close>; \<open>del curr_dir_dict[file]\<close>
  raises \<open>KeyError\<close> when the key is not there.
\<close>

fun detect_removed_loop :: "string list \<Rightarrow> string list \<Rightarrow> state \<Rightarrow> error option \<times> state" where
  "detect_removed_loop [] files s = (None, s)"
| "detect_removed_loop (file # rest) files s =
     (if file \<notin> set files then
        (case map_of (curr_dir_dict s) file of
           None \<Rightarrow> (Some KeyError, s)
         | Some v \<Rightarrow>
             detect_removed_loop rest files
               (log (InfoRemoved file)
                  (s\<lparr>curr_dir_dict := AList.delete file (curr_dir_dict s)\<rparr>)))
      else detect_removed_loop rest files s)"

definition detect_removed_files :: "dict \<Rightarrow> string list \<Rightarrow> state \<Rightarrow> error option \<times> state" where
  "detect_removed_files prev_dict files s = detect_removed_loop (keys prev_dict) files s"

text \<open>
  \<open>detect_added_files\<close> ignores its second argument and walks the keys of the global
  \<open>curr_dir_dict\<close>.
\<close>

fun detect_added_loop :: "string list \<Rightarrow> dict \<Rightarrow> state \<Rightarrow> state" where
  "detect_added_loop [] prev_dict s = s"
| "detect_added_loop (file # rest) prev_dict s =
     (if file \<notin> set (keys prev_dict)
      then detect_added_loop rest prev_dict (log (InfoAdded file) s)
      else detect_added_loop rest prev_dict s)"

definition detect_added_files :: "dict \<Rightarrow> dict \<Rightarrow> state \<Rightarrow> state" where
  "detect_added_files prev_dict files s = detect_added_loop (keys (curr_dir_dict s)) prev_dict s"

fun filter_extension ::
  "(string \<Rightarrow> error + string list) \<Rightarrow> string \<Rightarrow> string option \<Rightarrow> string list \<Rightarrow> state
     \<Rightarrow> error option \<times> state" where
  "filter_extension rd magic_string extension [] s = (None, s)"
| "filter_extension rd magic_string extension (file # rest) s =
     (if extension = None \<or> Some (splitext_ext file) = extension then
        (case search_for_magic rd file (dict_get (curr_dir_dict s) file 0 + 1) magic_string s of
           (Some e, s') \<Rightarrow> (Some e, s')
         | (None, s') \<Rightarrow> filter_extension rd magic_string extension rest s')
      else filter_extension rd magic_string extension rest s)"

definition alert_user :: "string option \<Rightarrow> string option \<Rightarrow> string option \<Rightarrow> error option" where
  "alert_user path magic_string extension =
     (if \<not> truthy magic_string then Some MagicStringError
      else if extension \<noteq> None \<and> the extension = [] then Some IndexError
      else if extension \<noteq> None \<and> hd (the extension) \<noteq> CHR ''.'' then Some ExtensionError
      else if \<not> truthy path then Some NoDirectoryError
      else None)"

text \<open>
  \<open>time.sleep(secs)\<close> first converts the seconds to a signed 64-bit count of nanoseconds
  and raises \<open>OverflowError\<close> when they do not fit; then it raises \<open>ValueError\<close> on a
  negative argument.
\<close>

definition sleep :: "int \<Rightarrow> state \<Rightarrow> error option \<times> state" where
  "sleep secs s =
     (if secs * 1000000000 > 2 ^ 63 - 1 \<or> secs * 1000000000 < - (2 ^ 63) then (Some OverflowError, s)
      else if secs < 0 then (Some ValueError, s)
      else (None, log (Sleep secs) s))"

text \<open>
  The body of the \<open>try\<close> block. After \<open>alert_user\<close> has returned, \<open>magic_string\<close> is a
  non-empty string: the branch for \<open>None\<close> cannot be taken.
\<close>

definition try_body ::
  "string option \<Rightarrow> string option \<Rightarrow> string option \<Rightarrow> int \<Rightarrow> env \<Rightarrow> state
     \<Rightarrow> error option \<times> state" where
  "try_body path magic_string extension interval e s =
     (case alert_user path magic_string extension of
        Some err \<Rightarrow> (Some err, s)
      | None \<Rightarrow>
     (case watch_files e of
        Inl err \<Rightarrow> (Some err, s)
      | Inr files \<Rightarrow>
     (case filter_extension (readlines e) (case magic_string of Some m \<Rightarrow> m | None \<Rightarrow> [])
             extension files s of
        (Some err, s1) \<Rightarrow> (Some err, s1)
      | (None, s1) \<Rightarrow>
     (case detect_removed_files (prev_dir_dict s1) files s1 of
        (Some err, s2) \<Rightarrow> (Some err, s2)
      | (None, s2) \<Rightarrow>
          (let s3 = detect_added_files (prev_dir_dict s2) (curr_dir_dict s2) s2;
               s4 = log (DebugCurrDict (curr_dir_dict s3)) s3;
               s5 = s4\<lparr>prev_dir_dict := curr_dir_dict s4\<rparr>
           in sleep interval s5)))))"

text \<open>The \<open>except\<close> clauses, in the order of the source.\<close>

fun handler :: "string option \<Rightarrow> string option \<Rightarrow> error \<Rightarrow> state \<Rightarrow> control \<times> state" where
  "handler path extension KeyboardInterrupt s = (Continue, log DebugInterrupted s)"
| "handler path extension FileNotFoundError s =
     (Continue, log (Sleep 5) (log (ErrorDirNotFound path) s))"
| "handler path extension MagicStringError s = (Break, log ErrorNoMagic s)"
| "handler path extension ExtensionError s = (Break, log (ErrorExtension extension) s)"
| "handler path extension NoDirectoryError s = (Break, log ErrorNoDirectory s)"
| "handler path extension err s = (Break, log (ErrorSomethingWrong err) s)"

text \<open>One pass through the body of the \<open>while\<close> loop.\<close>

definition iteration ::
  "string option \<Rightarrow> string option \<Rightarrow> string option \<Rightarrow> int \<Rightarrow> env \<Rightarrow> state \<Rightarrow> control \<times> state" where
  "iteration path magic_string extension interval e s =
     (case try_body path magic_string extension interval e s of
        (None, s') \<Rightarrow> (Continue, s')
      | (Some err, s') \<Rightarrow> handler path extension err s')"

definition signal_handler :: "signal \<Rightarrow> state \<Rightarrow> state" where
  "signal_handler sig_num s = s\<lparr>stdout := stdout s @ [sig_num], exit_program := True\<rparr>"

text \<open>
  \<open>watch_directory\<close>, run against the answers of the operating system for the first
  iterations. \<open>Running\<close>: the loop is at its head with \<open>exit_program\<close> false and waits
  for the next answers; \<open>Returned\<close>: the function has returned. The handler writes only
  \<open>exit_program\<close> and \<open>stdout\<close>, which nothing in the body reads, so the signals of an
  iteration are delivered at its end.
\<close>

fun watch_directory ::
  "string option \<Rightarrow> string option \<Rightarrow> string option \<Rightarrow> int \<Rightarrow> env list \<Rightarrow> state \<Rightarrow> status \<times> state" where
  "watch_directory path magic_string extension interval [] s =
     (if exit_program s then Returned else Running, s)"
| "watch_directory path magic_string extension interval (e # es) s =
     (if exit_program s then (Returned, s)
      else (case iteration path magic_string extension interval e s of
              (Break, s') \<Rightarrow> (Returned, fold signal_handler (signals e) s')
            | (Continue, s') \<Rightarrow>
                watch_directory path magic_string extension interval es
                  (fold signal_handler (signals e) s')))"

section \<open>Log levels and example environments\<close>

text \<open>The events written with \<open>logger.error\<close>.\<close>

definition is_error_log :: "event \<Rightarrow> bool" where
  "is_error_log ev =
     (case ev of ErrorDirNotFound p \<Rightarrow> True | ErrorNoMagic \<Rightarrow> True | ErrorExtension x \<Rightarrow> True
      | ErrorNoDirectory \<Rightarrow> True | ErrorSomethingWrong err \<Rightarrow> True | _ \<Rightarrow> False)"

text \<open>The errors the three configuration clauses write.\<close>

definition is_config_error_log :: "event \<Rightarrow> bool" where
  "is_config_error_log ev =
     (case ev of ErrorNoMagic \<Rightarrow> True | ErrorExtension x \<Rightarrow> True | ErrorNoDirectory \<Rightarrow> True
      | _ \<Rightarrow> False)"

text \<open>The events written when the magic text is found.\<close>

definition is_match_log :: "event \<Rightarrow> bool" where
  "is_match_log ev = (case ev of InfoMagicFound m f k \<Rightarrow> True | _ \<Rightarrow> False)"

text \<open>
  Example answers of the operating system. The watch directory does not exist; it holds one
  file with the magic text on its second line, and two interrupts are delivered meanwhile.
\<close>

definition env_missing :: env where
  "env_missing = \<lparr>watch_files = Inl FileNotFoundError, readlines = (\<lambda>f. Inl FileNotFoundError),
                  signals = []\<rparr>"

definition env_signalled :: env where
  "env_signalled = \<lparr>watch_files = Inr [''d/a.log''], readlines = (\<lambda>f. Inr [''x'', ''FOO'']),
                    signals = [SIGINT, SIGINT]\<rparr>"

text \<open>
  The file \<open>d/a.log\<close> has left the directory between the listing and the \<open>open\<close>, and
  \<open>d/b.log\<close>, listed after it, holds the magic text.
\<close>

definition env_vanished :: env where
  "env_vanished = \<lparr>watch_files = Inr [''d/a.log'', ''d/b.log''],
                   readlines = (\<lambda>f. if f = ''d/b.log'' then Inr [''FOO'']
                                      else Inl FileNotFoundError),
                   signals = []\<rparr>"

text \<open>The other way round: \<open>d/a.log\<close> is read, \<open>d/b.log\<close>, listed after it, has left.\<close>

definition env_partial :: env where
  "env_partial = \<lparr>watch_files = Inr [''d/a.log'', ''d/b.log''],
                  readlines = (\<lambda>f. if f = ''d/a.log'' then Inr [''x'', ''FOO'']
                                     else Inl FileNotFoundError),
                  signals = []\<rparr>"

text \<open>The directory is there and holds no file.\<close>

definition env_empty_dir :: env where
  "env_empty_dir = \<lparr>watch_files = Inr [], readlines = (\<lambda>f. Inl FileNotFoundError),
                    signals = []\<rparr>"

text \<open>The directory holds \<open>d/a.log\<close> alone: with no line, with one line, with three lines.\<close>

definition env_empty_file :: env where
  "env_empty_file = \<lparr>watch_files = Inr [''d/a.log''], readlines = (\<lambda>f. Inr []),
                     signals = []\<rparr>"

definition env_one_line :: env where
  "env_one_line = \<lparr>watch_files = Inr [''d/a.log''], readlines = (\<lambda>f. Inr [''x'']),
                   signals = []\<rparr>"

definition env_grown :: env where
  "env_grown = \<lparr>watch_files = Inr [''d/a.log''], readlines = (\<lambda>f. Inr [''x'', ''FOO'', ''y'']),
                signals = []\<rparr>"

text \<open>The state after a cycle that has read two lines of \<open>d/a.log\<close>.\<close>

definition tracked_state :: state where
  "tracked_state = \<lparr>curr_dir_dict = [(''d/a.log'', 2)], prev_dir_dict = [(''d/a.log'', 2)],
                    exit_program = False, events = [], stdout = []\<rparr>"

section \<open>Basic facts\<close>

lemma log_fields [simp]:
  "curr_dir_dict (log ev s) = curr_dir_dict s"
  "prev_dir_dict (log ev s) = prev_dir_dict s"
  "exit_program (log ev s) = exit_program s"
  "stdout (log ev s) = stdout s"
  "events (log ev s) = events s @ [ev]"
  by (simp_all add: log_def)

text \<open>The definitions a concrete run is evaluated with.\<close>

lemmas run_defs = init_state_def iteration_def try_body_def alert_user_def truthy_def
  search_for_magic_def search_loop.simps dict_get_def log_def detect_removed_files_def
  detect_added_files_def keys_def sleep_def signal_handler_def splitext_ext_def

text \<open>
  \<open>str_contains\<close> is the contiguous-sublist relation on strings. On the four paths
  below \<open>splitext_ext\<close> gives the extensions that \<open>os.path.splitext\<close> gives.
\<close>

lemma str_contains_sublist: "str_contains m l \<longleftrightarrow> sublist m l"
  by (induction l) (auto simp: sublist_Cons_right)

lemma splitext_ext_examples:
  "splitext_ext ''d/a.log'' = ''.log''"
  "splitext_ext ''d/a.tar.gz'' = ''.gz''"
  "splitext_ext ''d/.bashrc'' = []"
  "splitext_ext ''d.x/a'' = []"
  by (simp_all add: splitext_ext_def)

text \<open>The three outcomes of \<open>time.sleep\<close>.\<close>

lemma sleep_examples:
  "sleep 9223372036 s = (None, log (Sleep 9223372036) s)"
  "sleep 9223372037 s = (Some OverflowError, s)"
  "sleep (- 1) s = (Some ValueError, s)"
  by (simp_all add: sleep_def)

text \<open>What \<open>alert_user\<close> answers.\<close>

lemma alert_user_raises:
  assumes "\<not> truthy magic_string \<or> \<not> truthy path \<or> (\<exists>x. extension = Some x \<and> \<not> prefix ''.'' x)"
  shows "alert_user path magic_string extension =
           Some (if \<not> truthy magic_string then MagicStringError
                 else if extension = Some [] then IndexError
                 else if \<exists>x. extension = Some x \<and> \<not> prefix ''.'' x then ExtensionError
                 else NoDirectoryError)"
  using assms by (cases extension; cases "the extension") (auto simp: alert_user_def prefix_def)

lemma alert_user_valid:
  assumes "truthy magic_string" "truthy path"
    "extension = None \<or> (\<exists>cs. extension = Some (CHR ''.'' # cs))"
  shows "alert_user path magic_string extension = None"
  using assms by (auto simp: alert_user_def)

section \<open>The signal handler and the steps of a cycle\<close>

text \<open>
  The handler writes \<open>exit_program\<close> and \<open>stdout\<close> only, and no step of a cycle reads
  either: every step gives the same result whether the signal arrives before or after it.
\<close>


lemma signal_handler_fields [simp]:
  "curr_dir_dict (signal_handler sg s) = curr_dir_dict s"
  "prev_dir_dict (signal_handler sg s) = prev_dir_dict s"
  "exit_program (signal_handler sg s) = True"
  "stdout (signal_handler sg s) = stdout s @ [sg]"
  "events (signal_handler sg s) = events s"
  by (simp_all add: signal_handler_def)

lemma signal_handler_log: "log ev (signal_handler sg s) = signal_handler sg (log ev s)"
  by (simp add: log_def signal_handler_def)

lemma signal_handler_curr_update:
  "(signal_handler sg s)\<lparr>curr_dir_dict := d\<rparr> = signal_handler sg (s\<lparr>curr_dir_dict := d\<rparr>)"
  by (simp add: signal_handler_def)

lemma signal_handler_prev_update:
  "(signal_handler sg s)\<lparr>prev_dir_dict := d\<rparr> = signal_handler sg (s\<lparr>prev_dir_dict := d\<rparr>)"
  by (simp add: signal_handler_def)

lemma search_loop_signal:
  "search_loop f m c i (signal_handler sg s) = signal_handler sg (search_loop f m c i s)"
proof (induction f m c i s rule: search_loop.induct)
  case (1 f m c i s)
  show ?case
  proof (cases "i < length c")
    case False
    then show ?thesis by (simp add: search_loop.simps)
  next
    case True
    show ?thesis
    proof (cases "str_contains m (c ! i)")
      case True
      with \<open>i < length c\<close> show ?thesis
        by (simp add: search_loop.simps [of f m c i] signal_handler_log signal_handler_curr_update)
    next
      case False
      with \<open>i < length c\<close> "1.IH" [OF \<open>i < length c\<close> refl False] show ?thesis
        by (simp add: search_loop.simps [of f m c i] signal_handler_curr_update)
    qed
  qed
qed

lemma search_for_magic_signal:
  "search_for_magic rd f n m (signal_handler sg s) =
     (case search_for_magic rd f n m s of (x, s') \<Rightarrow> (x, signal_handler sg s'))"
  by (simp add: search_for_magic_def search_loop_signal split: sum.splits)

lemma filter_extension_signal:
  "filter_extension rd m x fs (signal_handler sg s) =
     (case filter_extension rd m x fs s of (r, s') \<Rightarrow> (r, signal_handler sg s'))"
proof (induction fs arbitrary: s)
  case Nil
  show ?case by simp
next
  case (Cons f fs)
  show ?case
    using Cons.IH by (auto simp: search_for_magic_signal split: prod.splits option.splits)
qed

lemma detect_removed_loop_signal:
  "detect_removed_loop ks fs (signal_handler sg s) =
     (case detect_removed_loop ks fs s of (r, s') \<Rightarrow> (r, signal_handler sg s'))"
proof (induction ks arbitrary: s)
  case Nil
  show ?case by simp
next
  case (Cons k ks)
  show ?case
    by (simp add: Cons.IH signal_handler_log signal_handler_curr_update split: option.splits)
qed

lemma detect_added_loop_signal:
  "detect_added_loop ks d (signal_handler sg s) = signal_handler sg (detect_added_loop ks d s)"
  by (induction ks arbitrary: s) (simp_all add: signal_handler_log)

lemma sleep_signal:
  "sleep n (signal_handler sg s) = (case sleep n s of (r, s') \<Rightarrow> (r, signal_handler sg s'))"
  by (simp add: sleep_def signal_handler_log)

lemma try_body_signal:
  "try_body p m x i e (signal_handler sg s) =
     (case try_body p m x i e s of (r, s') \<Rightarrow> (r, signal_handler sg s'))"
  by (simp add: try_body_def filter_extension_signal detect_removed_files_def
      detect_removed_loop_signal detect_added_files_def detect_added_loop_signal
      signal_handler_log signal_handler_prev_update sleep_signal Let_def
      split: option.splits sum.splits prod.splits)

lemma handler_signal:
  "handler p x err (signal_handler sg s) =
     (case handler p x err s of (c, s') \<Rightarrow> (c, signal_handler sg s'))"
  by (cases err) (simp_all add: signal_handler_log)

lemma iteration_signal:
  "iteration p m x i e (signal_handler sg s) =
     (case iteration p m x i e s of (c, s') \<Rightarrow> (c, signal_handler sg s'))"
  by (simp add: iteration_def try_body_signal handler_signal split: prod.splits option.splits)

section \<open>The line scanner\<close>

lemma search_loop_past_end:
  "length c \<le> i \<Longrightarrow> search_loop f m c i s = s"
  by (simp add: search_loop.simps)

lemma search_loop_found:
  assumes "i \<le> N" "N < length c" "str_contains m (c ! N)"
    "\<forall>j. i \<le> j \<and> j < N \<longrightarrow> \<not> str_contains m (c ! j)"
  shows "search_loop f m c i s =
           log (InfoMagicFound m f N) (s\<lparr>curr_dir_dict := AList.update f N (curr_dir_dict s)\<rparr>)"
  using assms
proof (induction f m c i s rule: search_loop.induct)
  case (1 f m c i s)
  show ?case
  proof (cases "i = N")
    case True
    with "1.prems" show ?thesis by (simp add: search_loop.simps [of f m c N])
  next
    case False
    with "1.prems" have lt: "i < N" and no: "\<not> str_contains m (c ! i)" and len: "i < length c"
      by auto
    have "search_loop f m c (Suc i) (s\<lparr>curr_dir_dict := AList.update f i (curr_dir_dict s)\<rparr>) =
          log (InfoMagicFound m f N)
            (s\<lparr>curr_dir_dict := AList.update f i (curr_dir_dict s)\<rparr>
              \<lparr>curr_dir_dict := AList.update f N
                 (curr_dir_dict (s\<lparr>curr_dir_dict := AList.update f i (curr_dir_dict s)\<rparr>))\<rparr>)"
      using "1.prems" lt by (intro "1.IH" [OF len refl no]) auto
    with no len show ?thesis
      by (simp add: search_loop.simps [of f m c i])
  qed
qed

lemma search_loop_not_found:
  assumes "i < length c" "\<forall>j. i \<le> j \<and> j < length c \<longrightarrow> \<not> str_contains m (c ! j)"
  shows "search_loop f m c i s =
           s\<lparr>curr_dir_dict := AList.update f (length c - 1) (curr_dir_dict s)\<rparr>"
  using assms
proof (induction f m c i s rule: search_loop.induct)
  case (1 f m c i s)
  from "1.prems" have no: "\<not> str_contains m (c ! i)" by auto
  show ?case
  proof (cases "Suc i < length c")
    case True
    have "search_loop f m c (Suc i) (s\<lparr>curr_dir_dict := AList.update f i (curr_dir_dict s)\<rparr>) =
          s\<lparr>curr_dir_dict := AList.update f i (curr_dir_dict s)\<rparr>
           \<lparr>curr_dir_dict := AList.update f (length c - 1)
              (curr_dir_dict (s\<lparr>curr_dir_dict := AList.update f i (curr_dir_dict s)\<rparr>))\<rparr>"
      using "1.prems" True by (intro "1.IH" [OF "1.prems"(1) refl no]) auto
    with no "1.prems"(1) show ?thesis
      by (simp add: search_loop.simps [of f m c i])
  next
    case False
    with "1.prems"(1) have last: "length c - 1 = i" by simp
    from False have "search_loop f m c (Suc i) (s\<lparr>curr_dir_dict := AList.update f i (curr_dir_dict s)\<rparr>)
        = s\<lparr>curr_dir_dict := AList.update f i (curr_dir_dict s)\<rparr>"
      by (simp add: search_loop_past_end)
    with no "1.prems"(1) show ?thesis
      unfolding last by (simp add: search_loop.simps [of f m c i])
  qed
qed

text \<open>The three ways a scan ends.\<close>

lemma search_loop_cases:
  obtains (past_end) "length c \<le> i" "search_loop f m c i s = s"
  | (found) N where "i \<le> N" "N < length c" "str_contains m (c ! N)"
      "\<forall>j. i \<le> j \<and> j < N \<longrightarrow> \<not> str_contains m (c ! j)"
      "search_loop f m c i s =
         log (InfoMagicFound m f N) (s\<lparr>curr_dir_dict := AList.update f N (curr_dir_dict s)\<rparr>)"
  | (not_found) "i < length c" "\<forall>j. i \<le> j \<and> j < length c \<longrightarrow> \<not> str_contains m (c ! j)"
      "search_loop f m c i s =
         s\<lparr>curr_dir_dict := AList.update f (length c - 1) (curr_dir_dict s)\<rparr>"
proof (cases "length c \<le> i")
  case True
  then show ?thesis using past_end by (simp add: search_loop_past_end)
next
  case False
  then have len: "i < length c" by simp
  show ?thesis
  proof (cases "\<exists>j. i \<le> j \<and> j < length c \<and> str_contains m (c ! j)")
    case True
    define N where "N = (LEAST j. i \<le> j \<and> j < length c \<and> str_contains m (c ! j))"
    from True have P: "i \<le> N \<and> N < length c \<and> str_contains m (c ! N)"
      unfolding N_def by (rule LeastI_ex)
    have least: "\<not> str_contains m (c ! j)" if "i \<le> j" "j < N" for j
    proof
      assume "str_contains m (c ! j)"
      with that P have "i \<le> j \<and> j < length c \<and> str_contains m (c ! j)" by simp
      then have "N \<le> j" unfolding N_def by (rule Least_le)
      with that show False by simp
    qed
    then have all: "\<forall>j. i \<le> j \<and> j < N \<longrightarrow> \<not> str_contains m (c ! j)" by blast
    from P all show ?thesis
      using found [of N] search_loop_found [of i N c m f s] by blast
  next
    case False
    then have all: "\<forall>j. i \<le> j \<and> j < length c \<longrightarrow> \<not> str_contains m (c ! j)" by blast
    with len show ?thesis
      using not_found search_loop_not_found [of i c m f s] by blast
  qed
qed


lemma search_loop_frame:
  "prev_dir_dict (search_loop f m c i s) = prev_dir_dict s \<and>
   exit_program (search_loop f m c i s) = exit_program s \<and>
   stdout (search_loop f m c i s) = stdout s"
  by (cases f m c i s rule: search_loop_cases) simp_all

lemma search_loop_other:
  "g \<noteq> f \<Longrightarrow> map_of (curr_dir_dict (search_loop f m c i s)) g = map_of (curr_dir_dict s) g"
  by (cases f m c i s rule: search_loop_cases) (simp_all add: update_conv')

lemma search_loop_entry:
  assumes "i < length c"
  shows "\<exists>k. i \<le> k \<and> k < length c \<and> map_of (curr_dir_dict (search_loop f m c i s)) f = Some k"
proof (cases f m c i s rule: search_loop_cases)
  case past_end
  with assms show ?thesis by simp
next
  case (found N)
  then show ?thesis by (auto simp: update_conv')
next
  case not_found
  with assms show ?thesis by (auto simp: update_conv')
qed

lemma search_loop_keys:
  "set (keys (curr_dir_dict (search_loop f m c i s))) =
     (if i < length c then insert f (set (keys (curr_dir_dict s))) else set (keys (curr_dir_dict s)))"
  by (cases f m c i s rule: search_loop_cases) (auto simp: keys_def update_keys)

lemma search_loop_distinct:
  "distinct (keys (curr_dir_dict s)) \<Longrightarrow> distinct (keys (curr_dir_dict (search_loop f m c i s)))"
  by (cases f m c i s rule: search_loop_cases) (simp_all add: keys_def distinct_update)

lemma search_loop_events:
  "\<exists>new. events (search_loop f m c i s) = events s @ new \<and>
     (new = [] \<or> (\<exists>k. i \<le> k \<and> k < length c \<and> new = [InfoMagicFound m f k]))"
  by (cases f m c i s rule: search_loop_cases) auto

section \<open>One cycle, step by step\<close>

lemma search_for_magic_frame:
  assumes "search_for_magic rd f n m s = (r, s')"
  shows "prev_dir_dict s' = prev_dir_dict s \<and> exit_program s' = exit_program s \<and> stdout s' = stdout s"
  using assms by (auto simp: search_for_magic_def search_loop_frame split: sum.splits)

text \<open>A scan resumed after the stored line count never lowers a stored line count.\<close>

lemma search_for_magic_mono:
  assumes "search_for_magic rd f (dict_get (curr_dir_dict s) f 0 + 1) m s = (r, s')"
    and "map_of (curr_dir_dict s) g = Some n"
  shows "\<exists>k. n \<le> k \<and> map_of (curr_dir_dict s') g = Some k"
proof (cases "rd f")
  case (Inl e)
  with assms show ?thesis by (simp add: search_for_magic_def)
next
  case (Inr ls)
  let ?i = "dict_get (curr_dir_dict s) f 0 + 1"
  from Inr assms(1) have s': "s' = search_loop f m ([] # ls) ?i s"
    by (simp add: search_for_magic_def)
  show ?thesis
  proof (cases "g = f")
    case False
    with assms(2) s' show ?thesis by (simp add: search_loop_other)
  next
    case True
    with assms(2) have i: "?i = n + 1" by (simp add: dict_get_def)
    show ?thesis
    proof (cases "?i < length ([] # ls)")
      case False
      then have "s' = s" unfolding s' by (simp add: search_loop_past_end)
      with assms(2) show ?thesis by simp
    next
      case lt: True
      from search_loop_entry [OF lt, of f m s] i True s' show ?thesis by auto
    qed
  qed
qed

lemma filter_extension_frame:
  assumes "filter_extension rd m x fs s = (r, s')"
  shows "prev_dir_dict s' = prev_dir_dict s \<and> exit_program s' = exit_program s \<and> stdout s' = stdout s"
  using assms
proof (induction fs arbitrary: s)
  case Nil
  then show ?case by simp
next
  case (Cons f fs)
  show ?case
  proof (cases "x = None \<or> Some (splitext_ext f) = x")
    case False
    with Cons show ?thesis by simp
  next
    case True
    obtain r1 s1 where sm: "search_for_magic rd f (dict_get (curr_dir_dict s) f 0 + 1) m s = (r1, s1)"
      by (cases "search_for_magic rd f (dict_get (curr_dir_dict s) f 0 + 1) m s")
    note fr = search_for_magic_frame [OF sm]
    show ?thesis
    proof (cases r1)
      case (Some e)
      with True sm Cons.prems fr show ?thesis by auto
    next
      case None
      with True sm Cons.prems have "filter_extension rd m x fs s1 = (r, s')" by auto
      from Cons.IH [OF this] fr show ?thesis by simp
    qed
  qed
qed

lemma filter_extension_mono:
  assumes "filter_extension rd m x fs s = (r, s')" and "map_of (curr_dir_dict s) g = Some n"
  shows "\<exists>k. n \<le> k \<and> map_of (curr_dir_dict s') g = Some k"
  using assms
proof (induction fs arbitrary: s n)
  case Nil
  then show ?case by simp
next
  case (Cons f fs)
  show ?case
  proof (cases "x = None \<or> Some (splitext_ext f) = x")
    case False
    with Cons.prems have "filter_extension rd m x fs s = (r, s')" by simp
    from Cons.IH [OF this Cons.prems(2)] show ?thesis .
  next
    case True
    obtain r1 s1 where sm: "search_for_magic rd f (dict_get (curr_dir_dict s) f 0 + 1) m s = (r1, s1)"
      by (cases "search_for_magic rd f (dict_get (curr_dir_dict s) f 0 + 1) m s")
    from search_for_magic_mono [OF sm Cons.prems(2)]
    obtain k where k: "n \<le> k" "map_of (curr_dir_dict s1) g = Some k" by blast
    show ?thesis
    proof (cases r1)
      case (Some e)
      with True sm Cons.prems(1) have "s' = s1" by auto
      with k show ?thesis by auto
    next
      case None
      with True sm Cons.prems(1) have "filter_extension rd m x fs s1 = (r, s')" by auto
      from Cons.IH [OF this k(2)] k(1) show ?thesis by (meson le_trans)
    qed
  qed
qed


lemma detect_removed_loop_frame:
  assumes "detect_removed_loop ks fs s = (r, s')"
  shows "prev_dir_dict s' = prev_dir_dict s \<and> exit_program s' = exit_program s \<and> stdout s' = stdout s"
  using assms
  by (induction ks arbitrary: s) (auto split: if_splits option.splits)

lemma detect_added_loop_frame:
  "curr_dir_dict (detect_added_loop ks d s) = curr_dir_dict s \<and>
   prev_dir_dict (detect_added_loop ks d s) = prev_dir_dict s \<and>
   exit_program (detect_added_loop ks d s) = exit_program s \<and>
   stdout (detect_added_loop ks d s) = stdout s"
  by (induction ks arbitrary: s) auto

lemma sleep_frame:
  assumes "sleep n s = (r, s')"
  shows "curr_dir_dict s' = curr_dir_dict s \<and> prev_dir_dict s' = prev_dir_dict s \<and>
         exit_program s' = exit_program s \<and> stdout s' = stdout s"
  using assms by (auto simp: sleep_def split: if_splits)

lemma handler_frame:
  assumes "handler p x err s = (c, s')"
  shows "curr_dir_dict s' = curr_dir_dict s \<and> prev_dir_dict s' = prev_dir_dict s \<and>
         exit_program s' = exit_program s \<and> stdout s' = stdout s"
  using assms by (cases err) auto


text \<open>Where a pass through the \<open>try\<close> block can end.\<close>

lemma try_body_cases:
  assumes "try_body p mg x i e s = (r, s')"
  obtains (config) err where "alert_user p mg x = Some err" "r = Some err" "s' = s"
  | (listing) err where "alert_user p mg x = None" "watch_files e = Inl err" "r = Some err" "s' = s"
  | (scan) fs err where "alert_user p mg x = None" "watch_files e = Inr fs"
      "filter_extension (readlines e) (case mg of Some m \<Rightarrow> m | None \<Rightarrow> []) x fs s = (Some err, s')"
      "r = Some err"
  | (removal) fs s1 err where "alert_user p mg x = None" "watch_files e = Inr fs"
      "filter_extension (readlines e) (case mg of Some m \<Rightarrow> m | None \<Rightarrow> []) x fs s = (None, s1)"
      "detect_removed_loop (keys (prev_dir_dict s1)) fs s1 = (Some err, s')" "r = Some err"
  | (complete) fs s1 s2 where "alert_user p mg x = None" "watch_files e = Inr fs"
      "filter_extension (readlines e) (case mg of Some m \<Rightarrow> m | None \<Rightarrow> []) x fs s = (None, s1)"
      "detect_removed_loop (keys (prev_dir_dict s1)) fs s1 = (None, s2)"
      "sleep i (log (DebugCurrDict (curr_dir_dict s2))
                  (detect_added_loop (keys (curr_dir_dict s2)) (prev_dir_dict s2) s2)
                \<lparr>prev_dir_dict := curr_dir_dict s2\<rparr>) = (r, s')"
proof (cases "alert_user p mg x")
  case (Some err)
  with assms have "r = Some err" "s' = s" by (simp_all add: try_body_def)
  with Some show ?thesis by (rule config)
next
  case ok: None
  show ?thesis
  proof (cases "watch_files e")
    case (Inl err)
    with ok assms have "r = Some err" "s' = s" by (simp_all add: try_body_def)
    with ok Inl show ?thesis by (rule listing)
  next
    case (Inr fs)
    obtain r1 s1 where fe:
      "filter_extension (readlines e) (case mg of Some m \<Rightarrow> m | None \<Rightarrow> []) x fs s = (r1, s1)"
      by (cases "filter_extension (readlines e) (case mg of Some m \<Rightarrow> m | None \<Rightarrow> []) x fs s")
    show ?thesis
    proof (cases r1)
      case (Some err)
      with ok Inr fe assms have "r = Some err" "s' = s1" by (simp_all add: try_body_def)
      with ok Inr fe Some show ?thesis by (intro scan [of fs err]) simp_all
    next
      case scanned: None
      obtain r2 s2 where dr: "detect_removed_loop (keys (prev_dir_dict s1)) fs s1 = (r2, s2)"
        by (cases "detect_removed_loop (keys (prev_dir_dict s1)) fs s1")
      show ?thesis
      proof (cases r2)
        case (Some err)
        with ok Inr fe scanned dr assms have "r = Some err" "s' = s2"
          by (simp_all add: try_body_def detect_removed_files_def)
        with ok Inr fe scanned dr Some show ?thesis by (intro removal [of fs s1 err]) simp_all
      next
        case None
        with ok Inr fe scanned dr assms have
          "sleep i (log (DebugCurrDict (curr_dir_dict s2))
                  (detect_added_loop (keys (curr_dir_dict s2)) (prev_dir_dict s2) s2)
                \<lparr>prev_dir_dict := curr_dir_dict s2\<rparr>) = (r, s')"
          by (simp add: try_body_def detect_removed_files_def detect_added_files_def Let_def
              detect_added_loop_frame)
        with ok Inr fe scanned dr None show ?thesis by (intro complete [of fs s1 s2]) simp_all
      qed
    qed
  qed
qed


lemma filter_extension_append:
  "filter_extension rd m x (xs @ ys) s =
     (case filter_extension rd m x xs s of
        (Some err, s1) \<Rightarrow> (Some err, s1)
      | (None, s1) \<Rightarrow> filter_extension rd m x ys s1)"
  by (induction xs arbitrary: s) (auto split: prod.splits option.splits)

text \<open>
  A scan resumed after the stored line count announces no line up to a stored line count,
  of the file it scans or of any other.
\<close>

lemma search_for_magic_no_rematch:
  assumes "search_for_magic rd g (dict_get (curr_dir_dict s) g 0 + 1) m s = (r, s')"
    and "map_of (curr_dir_dict s) f = Some n"
  shows "\<exists>new. events s' = events s @ new \<and> (\<forall>k. k \<le> n \<longrightarrow> InfoMagicFound m f k \<notin> set new)"
proof (cases "rd g")
  case (Inl e)
  with assms(1) show ?thesis by (simp add: search_for_magic_def)
next
  case (Inr ls)
  let ?i = "dict_get (curr_dir_dict s) g 0 + 1"
  from Inr assms(1) have s': "s' = search_loop g m ([] # ls) ?i s"
    by (simp add: search_for_magic_def)
  from search_loop_events [of g m "[] # ls" ?i s]
  obtain new where new: "events s' = events s @ new"
    "new = [] \<or> (\<exists>k. ?i \<le> k \<and> k < length ([] # ls) \<and> new = [InfoMagicFound m g k])"
    unfolding s' by blast
  have "\<forall>k. k \<le> n \<longrightarrow> InfoMagicFound m f k \<notin> set new"
  proof (cases "g = f")
    case False
    with new(2) show ?thesis by auto
  next
    case True
    with assms(2) have "?i = n + 1" by (simp add: dict_get_def)
    with new(2) show ?thesis by auto
  qed
  with new(1) show ?thesis by blast
qed

lemma filter_extension_no_rematch:
  assumes "filter_extension rd m x fs s = (r, s')" and "map_of (curr_dir_dict s) f = Some n"
  shows "\<exists>new. events s' = events s @ new \<and> (\<forall>k. k \<le> n \<longrightarrow> InfoMagicFound m f k \<notin> set new)"
  using assms
proof (induction fs arbitrary: s n)
  case Nil
  then show ?case by simp
next
  case (Cons g fs)
  show ?case
  proof (cases "x = None \<or> Some (splitext_ext g) = x")
    case False
    with Cons.prems have "filter_extension rd m x fs s = (r, s')" by simp
    from Cons.IH [OF this Cons.prems(2)] show ?thesis .
  next
    case True
    obtain r1 s1 where sm: "search_for_magic rd g (dict_get (curr_dir_dict s) g 0 + 1) m s = (r1, s1)"
      by (cases "search_for_magic rd g (dict_get (curr_dir_dict s) g 0 + 1) m s")
    from search_for_magic_no_rematch [OF sm Cons.prems(2)]
    obtain new1 where n1: "events s1 = events s @ new1"
      "\<forall>k. k \<le> n \<longrightarrow> InfoMagicFound m f k \<notin> set new1" by blast
    from search_for_magic_mono [OF sm Cons.prems(2)]
    obtain n' where n': "n \<le> n'" "map_of (curr_dir_dict s1) f = Some n'" by blast
    show ?thesis
    proof (cases r1)
      case (Some e)
      with True sm Cons.prems(1) have "s' = s1" by auto
      with n1 show ?thesis by blast
    next
      case None
      with True sm Cons.prems(1) have "filter_extension rd m x fs s1 = (r, s')" by auto
      from Cons.IH [OF this n'(2)]
      obtain new2 where n2: "events s' = events s1 @ new2"
        "\<forall>k. k \<le> n' \<longrightarrow> InfoMagicFound m f k \<notin> set new2" by blast
      from n1 n2 n'(1) have "events s' = events s @ (new1 @ new2) \<and>
          (\<forall>k. k \<le> n \<longrightarrow> InfoMagicFound m f k \<notin> set (new1 @ new2))"
        by auto
      then show ?thesis by blast
    qed
  qed
qed

text \<open>A listing that starts with a file is scanned from the line after its stored count.\<close>

lemma filter_extension_head:
  assumes "x = None \<or> Some (splitext_ext f) = x"
  shows "filter_extension rd m x (f # rest) s =
           (case search_for_magic rd f (dict_get (curr_dir_dict s) f 0 + 1) m s of
              (Some e, s') \<Rightarrow> (Some e, s')
            | (None, s') \<Rightarrow> filter_extension rd m x rest s')"
  using assms by auto



section \<open>A completed cycle\<close>

lemma in_keys_iff: "g \<in> set (keys d) \<longleftrightarrow> map_of d g \<noteq> None"
  by (simp add: keys_def map_of_eq_None_iff)

text \<open>A scan from the stored line count gives a file its entry when the file has a line.\<close>

lemma search_for_magic_keys:
  assumes "search_for_magic rd f (dict_get (curr_dir_dict s) f 0 + 1) m s = (None, s')"
  shows "set (keys (curr_dir_dict s')) =
           set (keys (curr_dir_dict s)) \<union> (if \<exists>l ls. rd f = Inr (l # ls) then {f} else {})"
proof (cases "rd f")
  case (Inl e)
  with assms show ?thesis by (simp add: search_for_magic_def)
next
  case (Inr ls)
  let ?i = "dict_get (curr_dir_dict s) f 0 + 1"
  from Inr assms have s': "s' = search_loop f m ([] # ls) ?i s"
    by (simp add: search_for_magic_def)
  show ?thesis
  proof (cases "f \<in> set (keys (curr_dir_dict s))")
    case True
    then show ?thesis unfolding s' by (auto simp: search_loop_keys)
  next
    case False
    then have "?i = 1" by (simp add: in_keys_iff dict_get_def)
    then show ?thesis unfolding s' using Inr
      by (cases ls) (auto simp: search_loop_keys)
  qed
qed

lemma filter_extension_keys:
  assumes "filter_extension rd m x fs s = (None, s')"
  shows "set (keys (curr_dir_dict s')) =
           set (keys (curr_dir_dict s)) \<union>
           {f \<in> set fs. (x = None \<or> Some (splitext_ext f) = x) \<and> (\<exists>l ls. rd f = Inr (l # ls))}"
  using assms
proof (induction fs arbitrary: s)
  case Nil
  then show ?case by simp
next
  case (Cons f fs)
  show ?case
  proof (cases "x = None \<or> Some (splitext_ext f) = x")
    case False
    with Cons.prems have "filter_extension rd m x fs s = (None, s')" by simp
    from Cons.IH [OF this] False show ?thesis by auto
  next
    case True
    obtain r1 s1 where sm: "search_for_magic rd f (dict_get (curr_dir_dict s) f 0 + 1) m s = (r1, s1)"
      by (cases "search_for_magic rd f (dict_get (curr_dir_dict s) f 0 + 1) m s")
    with True Cons.prems have r1: "r1 = None" and rest: "filter_extension rd m x fs s1 = (None, s')"
      by (auto split: option.splits)
    from search_for_magic_keys [OF sm [unfolded r1]] Cons.IH [OF rest] True
    show ?thesis by auto
  qed
qed

lemma search_for_magic_events:
  assumes "search_for_magic rd f n m s = (r, s')"
  shows "\<exists>new. events s' = events s @ new \<and> (\<forall>ev \<in> set new. is_match_log ev)"
proof (cases "rd f")
  case (Inl e)
  with assms show ?thesis by (simp add: search_for_magic_def)
next
  case (Inr ls)
  with assms have "s' = search_loop f m ([] # ls) n s" by (simp add: search_for_magic_def)
  with search_loop_events [of f m "[] # ls" n s] show ?thesis
    by (auto simp: is_match_log_def)
qed

lemma filter_extension_events:
  assumes "filter_extension rd m x fs s = (r, s')"
  shows "\<exists>new. events s' = events s @ new \<and> (\<forall>ev \<in> set new. is_match_log ev)"
  using assms
proof (induction fs arbitrary: s)
  case Nil
  then show ?case by simp
next
  case (Cons f fs)
  show ?case
  proof (cases "x = None \<or> Some (splitext_ext f) = x")
    case False
    with Cons.prems have "filter_extension rd m x fs s = (r, s')" by simp
    from Cons.IH [OF this] show ?thesis .
  next
    case True
    obtain r1 s1 where sm: "search_for_magic rd f (dict_get (curr_dir_dict s) f 0 + 1) m s = (r1, s1)"
      by (cases "search_for_magic rd f (dict_get (curr_dir_dict s) f 0 + 1) m s")
    from search_for_magic_events [OF sm]
    obtain new1 where n1: "events s1 = events s @ new1" "\<forall>ev \<in> set new1. is_match_log ev" by blast
    show ?thesis
    proof (cases r1)
      case (Some e)
      with True sm Cons.prems have "s' = s1" by auto
      with n1 show ?thesis by blast
    next
      case None
      with True sm Cons.prems have "filter_extension rd m x fs s1 = (r, s')" by auto
      from Cons.IH [OF this]
      obtain new2 where n2: "events s' = events s1 @ new2" "\<forall>ev \<in> set new2. is_match_log ev" by blast
      from n1 n2 have "events s' = events s @ (new1 @ new2) \<and> (\<forall>ev \<in> set (new1 @ new2). is_match_log ev)"
        by auto
      then show ?thesis by blast
    qed
  qed
qed

lemma filter_extension_distinct:
  assumes "filter_extension rd m x fs s = (r, s')" "distinct (keys (curr_dir_dict s))"
  shows "distinct (keys (curr_dir_dict s'))"
  using assms
proof (induction fs arbitrary: s)
  case Nil
  then show ?case by simp
next
  case (Cons f fs)
  show ?case
  proof (cases "x = None \<or> Some (splitext_ext f) = x")
    case False
    with Cons.prems have "filter_extension rd m x fs s = (r, s')" by simp
    from Cons.IH [OF this Cons.prems(2)] show ?thesis .
  next
    case True
    obtain r1 s1 where sm: "search_for_magic rd f (dict_get (curr_dir_dict s) f 0 + 1) m s = (r1, s1)"
      by (cases "search_for_magic rd f (dict_get (curr_dir_dict s) f 0 + 1) m s")
    have d1: "distinct (keys (curr_dir_dict s1))"
      using sm Cons.prems(2) by (auto simp: search_for_magic_def search_loop_distinct split: sum.splits)
    show ?thesis
    proof (cases r1)
      case (Some e)
      with True sm Cons.prems have "s' = s1" by auto
      with d1 show ?thesis by simp
    next
      case None
      with True sm Cons.prems have "filter_extension rd m x fs s1 = (r, s')" by auto
      from Cons.IH [OF this d1] show ?thesis .
    qed
  qed
qed

text \<open>The removal pass, when it raises no \<open>KeyError\<close>.\<close>

lemma detect_removed_loop_done:
  assumes "detect_removed_loop ks fs s = (None, s')"
  shows "curr_dir_dict s' = filter (\<lambda>kv. \<not> (fst kv \<in> set ks \<and> fst kv \<notin> set fs)) (curr_dir_dict s) \<and>
         events s' = events s @ map InfoRemoved (filter (\<lambda>k. k \<notin> set fs) ks)"
  using assms
proof (induction ks arbitrary: s)
  case Nil
  then show ?case by simp
next
  case (Cons k ks)
  show ?case
  proof (cases "k \<notin> set fs")
    case False
    with Cons.prems have "detect_removed_loop ks fs s = (None, s')" by simp
    from Cons.IH [OF this] False show ?thesis
      by (auto intro: filter_cong)
  next
    case out: True
    show ?thesis
    proof (cases "map_of (curr_dir_dict s) k")
      case None
      with out Cons.prems show ?thesis by simp
    next
      case (Some v)
      let ?s1 = "log (InfoRemoved k) (s\<lparr>curr_dir_dict := AList.delete k (curr_dir_dict s)\<rparr>)"
      from Some out Cons.prems have "detect_removed_loop ks fs ?s1 = (None, s')" by simp
      from Cons.IH [OF this] out show ?thesis
        by (auto simp: AList.delete_eq intro: filter_cong)
    qed
  qed
qed

lemma detect_removed_loop_present:
  assumes "detect_removed_loop ks fs s = (None, s')" "g \<in> set ks" "g \<notin> set fs"
  shows "map_of (curr_dir_dict s) g \<noteq> None"
  using assms
proof (induction ks arbitrary: s)
  case Nil
  then show ?case by simp
next
  case (Cons k ks)
  show ?case
  proof (cases "k = g")
    case True
    with Cons.prems show ?thesis by (auto split: option.splits)
  next
    case False
    with Cons.prems(2) have g: "g \<in> set ks" by simp
    show ?thesis
    proof (cases "k \<notin> set fs")
      case False
      with Cons.prems have "detect_removed_loop ks fs s = (None, s')" by simp
      from Cons.IH [OF this g Cons.prems(3)] show ?thesis .
    next
      case out: True
      with Cons.prems(1) obtain v where v: "map_of (curr_dir_dict s) k = Some v"
        by (cases "map_of (curr_dir_dict s) k") auto
      let ?s1 = "log (InfoRemoved k) (s\<lparr>curr_dir_dict := AList.delete k (curr_dir_dict s)\<rparr>)"
      from v out Cons.prems have "detect_removed_loop ks fs ?s1 = (None, s')" by simp
      from Cons.IH [OF this g Cons.prems(3)] False show ?thesis
        by (simp add: delete_conv')
    qed
  qed
qed

text \<open>
  \<open>del\<close> takes the key away, so a second visit of the same key would raise: a removal pass
  that ends without an exception has logged each removed key once.
\<close>

lemma detect_removed_loop_once:
  assumes "detect_removed_loop ks fs s = (None, s')" "g \<in> set ks" "g \<notin> set fs"
  shows "count_list (filter (\<lambda>k. k \<notin> set fs) ks) g = 1"
  using assms
proof (induction ks arbitrary: s)
  case Nil
  then show ?case by simp
next
  case (Cons k ks)
  show ?case
  proof (cases "k \<notin> set fs")
    case False
    with Cons.prems have run: "detect_removed_loop ks fs s = (None, s')" and "g \<in> set ks" by auto
    from Cons.IH [OF this Cons.prems(3)] False show ?thesis by simp
  next
    case out: True
    with Cons.prems(1) obtain v where v: "map_of (curr_dir_dict s) k = Some v"
      by (cases "map_of (curr_dir_dict s) k") auto
    let ?s1 = "log (InfoRemoved k) (s\<lparr>curr_dir_dict := AList.delete k (curr_dir_dict s)\<rparr>)"
    from v out Cons.prems have run: "detect_removed_loop ks fs ?s1 = (None, s')" by simp
    show ?thesis
    proof (cases "k = g")
      case False
      with Cons.prems(2) have "g \<in> set ks" by simp
      from Cons.IH [OF run this Cons.prems(3)] False out show ?thesis by simp
    next
      case True
      have "g \<notin> set ks"
      proof
        assume "g \<in> set ks"
        from detect_removed_loop_present [OF run this Cons.prems(3)] True show False
          by (simp add: delete_conv')
      qed
      then have "count_list (filter (\<lambda>k. k \<notin> set fs) ks) g = 0" by simp
      with True out show ?thesis by simp
    qed
  qed
qed

lemma detect_added_loop_events:
  "events (detect_added_loop ks d s) =
     events s @ map InfoAdded (filter (\<lambda>k. k \<notin> set (keys d)) ks)"
  by (induction ks arbitrary: s) auto


lemma keys_filter: "keys (filter (\<lambda>kv. P (fst kv)) d) = filter P (keys d)"
  by (induction d) (auto simp: keys_def)

text \<open>A pass through the \<open>try\<close> block that raises nothing.\<close>

lemma try_body_completed:
  assumes "try_body p mg x i e s = (None, s')"
  obtains fs s1 s2 scan where "watch_files e = Inr fs"
    "filter_extension (readlines e) (case mg of Some m \<Rightarrow> m | None \<Rightarrow> []) x fs s = (None, s1)"
    "detect_removed_loop (keys (prev_dir_dict s)) fs s1 = (None, s2)"
    "curr_dir_dict s' = curr_dir_dict s2" "prev_dir_dict s' = curr_dir_dict s2"
    "events s1 = events s @ scan" "\<forall>ev \<in> set scan. is_match_log ev"
    "events s' = events s @ scan @
       map InfoRemoved (filter (\<lambda>k. k \<notin> set fs) (keys (prev_dir_dict s))) @
       map InfoAdded (filter (\<lambda>k. k \<notin> set (keys (prev_dir_dict s))) (keys (curr_dir_dict s2))) @
       [DebugCurrDict (curr_dir_dict s2), Sleep i]"
  using assms
proof (cases rule: try_body_cases)
  case (complete fs s1 s2)
  from filter_extension_frame [OF complete(3)] have pv1: "prev_dir_dict s1 = prev_dir_dict s"
    by simp
  from detect_removed_loop_frame [OF complete(4)] pv1 have pv2: "prev_dir_dict s2 = prev_dir_dict s"
    by simp
  from filter_extension_events [OF complete(3)]
  obtain scan where scan: "events s1 = events s @ scan" "\<forall>ev \<in> set scan. is_match_log ev"
    by blast
  from detect_removed_loop_done [OF complete(4)] pv1
  have ev2: "events s2 = events s1 @
      map InfoRemoved (filter (\<lambda>k. k \<notin> set fs) (keys (prev_dir_dict s)))"
    by simp
  from complete(5) have s': "s' = log (Sleep i)
      (log (DebugCurrDict (curr_dir_dict s2))
         (detect_added_loop (keys (curr_dir_dict s2)) (prev_dir_dict s2) s2)
       \<lparr>prev_dir_dict := curr_dir_dict s2\<rparr>)"
    by (auto simp: sleep_def split: if_splits)
  have c: "curr_dir_dict s' = curr_dir_dict s2" and pv: "prev_dir_dict s' = curr_dir_dict s2"
    unfolding s' by (simp_all add: detect_added_loop_frame)
  have "events s' = events s2 @
       map InfoAdded (filter (\<lambda>k. k \<notin> set (keys (prev_dir_dict s))) (keys (curr_dir_dict s2))) @
       [DebugCurrDict (curr_dir_dict s2), Sleep i]"
    unfolding s' by (simp add: detect_added_loop_events pv2)
  with ev2 scan(1) have ev: "events s' = events s @ scan @
       map InfoRemoved (filter (\<lambda>k. k \<notin> set fs) (keys (prev_dir_dict s))) @
       map InfoAdded (filter (\<lambda>k. k \<notin> set (keys (prev_dir_dict s))) (keys (curr_dir_dict s2))) @
       [DebugCurrDict (curr_dir_dict s2), Sleep i]"
    by simp
  from complete(2,3) complete(4) [unfolded pv1] c pv scan ev show ?thesis
    by (rule that)
qed simp_all

lemma try_body_completed_keys:
  assumes "try_body p mg x i e s = (None, s')" "watch_files e = Inr fs"
  shows "set (keys (curr_dir_dict s')) =
           (set (keys (curr_dir_dict s)) \<union>
            {f \<in> set fs. (x = None \<or> Some (splitext_ext f) = x) \<and>
                          (\<exists>l ls. readlines e f = Inr (l # ls))}) -
           {k \<in> set (keys (prev_dir_dict s)). k \<notin> set fs}"
    and "prev_dir_dict s' = curr_dir_dict s'"
proof -
  from assms(1) obtain fs' s1 s2 where run: "watch_files e = Inr fs'"
    "filter_extension (readlines e) (case mg of Some m \<Rightarrow> m | None \<Rightarrow> []) x fs' s = (None, s1)"
    "detect_removed_loop (keys (prev_dir_dict s)) fs' s1 = (None, s2)"
    "curr_dir_dict s' = curr_dir_dict s2" "prev_dir_dict s' = curr_dir_dict s2"
    by (rule try_body_completed)
  with assms(2) have fs: "fs' = fs" by simp
  from detect_removed_loop_done [OF run(3)]
  have "curr_dir_dict s2 =
      filter (\<lambda>kv. \<not> (fst kv \<in> set (keys (prev_dir_dict s)) \<and> fst kv \<notin> set fs'))
        (curr_dir_dict s1)"
    by simp
  then have "keys (curr_dir_dict s2) =
      filter (\<lambda>k. \<not> (k \<in> set (keys (prev_dir_dict s)) \<and> k \<notin> set fs')) (keys (curr_dir_dict s1))"
    using keys_filter [of "\<lambda>k. \<not> (k \<in> set (keys (prev_dir_dict s)) \<and> k \<notin> set fs')" "curr_dir_dict s1"]
    by simp
  with filter_extension_keys [OF run(2)] run(4) fs
  show "set (keys (curr_dir_dict s')) =
           (set (keys (curr_dir_dict s)) \<union>
            {f \<in> set fs. (x = None \<or> Some (splitext_ext f) = x) \<and>
                          (\<exists>l ls. readlines e f = Inr (l # ls))}) -
           {k \<in> set (keys (prev_dir_dict s)). k \<notin> set fs}"
    by auto
  from run(4,5) show "prev_dir_dict s' = curr_dir_dict s'" by simp
qed

lemma count_list_match_logs:
  assumes "\<forall>ev \<in> set scan. is_match_log ev" "\<not> is_match_log ev"
  shows "count_list scan ev = 0"
  using assms by (auto simp: count_list_0_iff)

lemma count_list_removed: "count_list (map InfoRemoved ks) (InfoRemoved g) = count_list ks g"
  by (induction ks) auto

lemma count_list_added: "count_list (map InfoAdded ks) (InfoAdded g) = count_list ks g"
  by (induction ks) auto

lemma count_list_filter: "count_list (filter P xs) x = (if P x then count_list xs x else 0)"
  by (induction xs) auto

lemma count_list_distinct: "distinct xs \<Longrightarrow> x \<in> set xs \<Longrightarrow> count_list xs x = 1"
  by (induction xs) auto

lemma detect_removed_loop_distinct:
  assumes "detect_removed_loop ks fs s = (r, s')" "distinct (keys (curr_dir_dict s))"
  shows "distinct (keys (curr_dir_dict s'))"
  using assms
proof (induction ks arbitrary: s)
  case Nil
  then show ?case by simp
next
  case (Cons k ks)
  show ?case
  proof (cases "k \<notin> set fs")
    case False
    with Cons.prems have "detect_removed_loop ks fs s = (r, s')" by simp
    from Cons.IH [OF this Cons.prems(2)] show ?thesis .
  next
    case out: True
    show ?thesis
    proof (cases "map_of (curr_dir_dict s) k")
      case None
      with out Cons.prems show ?thesis by simp
    next
      case (Some v)
      let ?s1 = "log (InfoRemoved k) (s\<lparr>curr_dir_dict := AList.delete k (curr_dir_dict s)\<rparr>)"
      from Some out Cons.prems have run: "detect_removed_loop ks fs ?s1 = (r, s')" by simp
      have "distinct (keys (curr_dir_dict ?s1))"
        using Cons.prems(2) by (simp add: keys_def distinct_delete)
      from Cons.IH [OF run this] show ?thesis .
    qed
  qed
qed

text \<open>
  The keys of the snapshot are keys of \<open>curr_dir_dict\<close>, each once: then no \<open>del\<close> of the
  removal pass raises \<open>KeyError\<close>.
\<close>

lemma detect_removed_loop_no_key_error:
  assumes "distinct ks" "set ks \<subseteq> set (keys (curr_dir_dict s))"
  shows "\<exists>s'. detect_removed_loop ks fs s = (None, s')"
  using assms
proof (induction ks arbitrary: s)
  case Nil
  show ?case by simp
next
  case (Cons k ks)
  show ?case
  proof (cases "k \<notin> set fs")
    case False
    with Cons.IH [of s] Cons.prems show ?thesis by simp
  next
    case out: True
    from Cons.prems(2) obtain v where v: "map_of (curr_dir_dict s) k = Some v"
      by (auto simp: in_keys_iff)
    let ?s1 = "log (InfoRemoved k) (s\<lparr>curr_dir_dict := AList.delete k (curr_dir_dict s)\<rparr>)"
    have "set ks \<subseteq> set (keys (curr_dir_dict ?s1))"
      using Cons.prems by (auto simp: keys_def delete_keys)
    with Cons.IH [of ?s1] Cons.prems(1) obtain s' where "detect_removed_loop ks fs ?s1 = (None, s')"
      by auto
    with v out show ?thesis by simp
  qed
qed

text \<open>
  Each dictionary holds a key once, and the snapshot holds keys of \<open>curr_dir_dict\<close> only:
  this is so at the start and stays so over every iteration, however it ends.
\<close>

lemma iteration_keeps_invariant:
  assumes "iteration p mg x i e s = (c, s')"
    and "distinct (keys (curr_dir_dict s))" "distinct (keys (prev_dir_dict s))"
    and "set (keys (prev_dir_dict s)) \<subseteq> set (keys (curr_dir_dict s))"
  shows "distinct (keys (curr_dir_dict s')) \<and> distinct (keys (prev_dir_dict s')) \<and>
         set (keys (prev_dir_dict s')) \<subseteq> set (keys (curr_dir_dict s'))"
proof -
  obtain r t where tb: "try_body p mg x i e s = (r, t)"
    by (cases "try_body p mg x i e s")
  have same: "curr_dir_dict s' = curr_dir_dict t \<and> prev_dir_dict s' = prev_dir_dict t"
  proof (cases r)
    case None
    with tb assms(1) show ?thesis by (simp add: iteration_def)
  next
    case (Some err)
    with tb assms(1) have "handler p x err t = (c, s')" by (simp add: iteration_def)
    from handler_frame [OF this] show ?thesis by simp
  qed
  have "distinct (keys (curr_dir_dict t)) \<and> distinct (keys (prev_dir_dict t)) \<and>
         set (keys (prev_dir_dict t)) \<subseteq> set (keys (curr_dir_dict t))"
    using tb
  proof (cases rule: try_body_cases)
    case (config err)
    with assms(2-4) show ?thesis by simp
  next
    case (listing err)
    with assms(2-4) show ?thesis by simp
  next
    case (scan fs err)
    have "set (keys (curr_dir_dict s)) \<subseteq> set (keys (curr_dir_dict t))"
      using filter_extension_mono [OF scan(3)] by (fastforce simp: in_keys_iff)
    with filter_extension_distinct [OF scan(3) assms(2)] filter_extension_frame [OF scan(3)] assms(3,4)
    show ?thesis by auto
  next
    case (removal fs s1 err)
    have sub: "set (keys (curr_dir_dict s)) \<subseteq> set (keys (curr_dir_dict s1))"
      using filter_extension_mono [OF removal(3)] by (fastforce simp: in_keys_iff)
    from filter_extension_frame [OF removal(3)] have pv: "prev_dir_dict s1 = prev_dir_dict s" by simp
    from detect_removed_loop_no_key_error [of "keys (prev_dir_dict s1)" s1 fs] assms(3,4) sub pv removal(4)
    show ?thesis by auto
  next
    case (complete fs s1 s2)
    from filter_extension_distinct [OF complete(3) assms(2)]
    have "distinct (keys (curr_dir_dict s1))" .
    from detect_removed_loop_distinct [OF complete(4) this]
    have d2: "distinct (keys (curr_dir_dict s2))" .
    from sleep_frame [OF complete(5)]
    have "curr_dir_dict t = curr_dir_dict s2" "prev_dir_dict t = curr_dir_dict s2"
      by (simp_all add: detect_added_loop_frame)
    with d2 show ?thesis by simp
  qed
  with same show ?thesis by simp
qed

section \<open>Claim C1: a file that cannot be read\<close>

text \<open>
  Claim C1, as amended. \<open>open\<close> is called inside \<open>search_for_magic\<close> with no handler
  around it, so a failure leaves the scan: when the files listed before the failing one
  were scanned, the pass through the \<open>try\<close> block ends there with the state of that
  moment. The files listed after it are not scanned, neither the removal nor the addition
  pass runs and the snapshot is not renewed. \<open>FileNotFoundError\<close> is answered by the
  clause written for the missing directory (an error in the log, a sleep of 5 seconds, and
  the loop goes on); an \<open>OSError\<close> ends the loop.
\<close>

theorem read_failure_leaves_scan:
  assumes "magic_string = Some m" "truthy magic_string" "truthy path"
    "extension = None \<or> (\<exists>cs. extension = Some (CHR ''.'' # cs))"
    and "watch_files e = Inr (before @ file # after)"
    and "filter_extension (readlines e) m extension before s = (None, s1)"
    and "extension = None \<or> Some (splitext_ext file) = extension"
    and "readlines e file = Inl err"
  shows "try_body path magic_string extension interval e s = (Some err, s1) \<and>
         prev_dir_dict s1 = prev_dir_dict s \<and>
         iteration path magic_string extension interval e s = handler path extension err s1 \<and>
         (err = FileNotFoundError \<longrightarrow>
            iteration path magic_string extension interval e s =
              (Continue, log (Sleep 5) (log (ErrorDirNotFound path) s1))) \<and>
         (err = OSError \<longrightarrow>
            iteration path magic_string extension interval e s =
              (Break, log (ErrorSomethingWrong OSError) s1))"
proof -
  have ok: "alert_user path magic_string extension = None"
    using assms(2-4) by (rule alert_user_valid)
  have "search_for_magic (readlines e) file (dict_get (curr_dir_dict s1) file 0 + 1) m s1 = (Some err, s1)"
    using assms(8) by (simp add: search_for_magic_def)
  with assms(7) have "filter_extension (readlines e) m extension (file # after) s1 = (Some err, s1)"
    by auto
  with assms(6) have "filter_extension (readlines e) m extension (before @ file # after) s = (Some err, s1)"
    by (simp add: filter_extension_append)
  with ok assms(1,5) have tb: "try_body path magic_string extension interval e s = (Some err, s1)"
    by (simp add: try_body_def)
  then have it: "iteration path magic_string extension interval e s = handler path extension err s1"
    by (simp add: iteration_def)
  from filter_extension_frame [OF assms(6)] tb it show ?thesis by simp
qed

theorem read_failure_leaves_scan_witness:
  "readlines env_partial ''d/b.log'' = Inl FileNotFoundError \<and>
   iteration (Some ''d'') (Some ''FOO'') None 1 env_partial init_state =
     (Continue, init_state\<lparr>curr_dir_dict := [(''d/a.log'', 2)],
                            events := [InfoMagicFound ''FOO'' ''d/a.log'' 2,
                                       ErrorDirNotFound (Some ''d''), Sleep 5]\<rparr>)"
  using read_failure_leaves_scan [of "Some ''FOO''" "''FOO''" "Some ''d''" None env_partial
      "[''d/a.log'']" "''d/b.log''" "[]" init_state
      "init_state\<lparr>curr_dir_dict := [(''d/a.log'', 2)], events := [InfoMagicFound ''FOO'' ''d/a.log'' 2]\<rparr>"
      FileNotFoundError 1]
  by (simp add: env_partial_def truthy_def init_state_def search_for_magic_def search_loop.simps
      dict_get_def log_def)

text \<open>
  Claim C1, as stated, fails: \<open>d/a.log\<close> has vanished between the listing and the
  \<open>open\<close>; \<open>d/b.log\<close>, listed after it, is readable and holds the magic text, and the
  iteration ends without an entry or a match event for it.
\<close>

theorem read_failure_counterexample:
  "watch_files env_vanished = Inr [''d/a.log'', ''d/b.log''] \<and>
   readlines env_vanished ''d/a.log'' = Inl FileNotFoundError \<and>
   readlines env_vanished ''d/b.log'' = Inr [''FOO''] \<and>
   iteration (Some ''d'') (Some ''FOO'') None 1 env_vanished init_state =
     (Continue, init_state\<lparr>events := [ErrorDirNotFound (Some ''d''), Sleep 5]\<rparr>)"
  by (simp add: run_defs env_vanished_def)

section \<open>Claim C2: the match reported by a scan\<close>

text \<open>
  Claim C2, as amended. A scan returns at its first match, so the line reported is the
  first line at or after the start that contains the magic string: for such a line \<open>N\<close>
  the scan writes exactly one match event, for line \<open>N\<close>, and stores \<open>N\<close> as the line
  count of the file. When the scan is the one \<open>filter_extension\<close> makes for a listed file,
  from the line after the stored count, the result is the same. From then on no run of
  \<open>filter_extension\<close>, over any listing and any contents of the files, announces a line up
  to \<open>N\<close> of this file again: not from the state the scan leaves, and not from any later
  state in which the stored count of the file is at least \<open>N\<close>. Nor does a direct scan that
  starts after line \<open>N\<close>.
\<close>

theorem first_match_reported_once:
  assumes "rd filename = Inr lines"
    and "0 < start_line" "start_line \<le> N" "N \<le> length lines"
    and "str_contains magic_string (lines ! (N - 1))"
    and "\<forall>j. start_line \<le> j \<and> j < N \<longrightarrow> \<not> str_contains magic_string (lines ! (j - 1))"
  shows "search_for_magic rd filename start_line magic_string s =
           (None, log (InfoMagicFound magic_string filename N)
                    (s\<lparr>curr_dir_dict := AList.update filename N (curr_dir_dict s)\<rparr>)) \<and>
         (dict_get (curr_dir_dict s) filename 0 + 1 = start_line \<and>
          (extension = None \<or> Some (splitext_ext filename) = extension) \<longrightarrow>
            filter_extension rd magic_string extension [filename] s =
              (None, log (InfoMagicFound magic_string filename N)
                       (s\<lparr>curr_dir_dict := AList.update filename N (curr_dir_dict s)\<rparr>))) \<and>
         (\<forall>rd' extension' files r s'.
            filter_extension rd' magic_string extension' files
                (log (InfoMagicFound magic_string filename N)
                   (s\<lparr>curr_dir_dict := AList.update filename N (curr_dir_dict s)\<rparr>)) = (r, s') \<longrightarrow>
            (\<exists>new. events s' = events s @ [InfoMagicFound magic_string filename N] @ new \<and>
               (\<forall>k. k \<le> N \<longrightarrow> InfoMagicFound magic_string filename k \<notin> set new))) \<and>
         (\<forall>rd' extension' files t n r t'.
            map_of (curr_dir_dict t) filename = Some n \<and> N \<le> n \<and>
            filter_extension rd' magic_string extension' files t = (r, t') \<longrightarrow>
            (\<exists>new. events t' = events t @ new \<and>
               (\<forall>k. k \<le> N \<longrightarrow> InfoMagicFound magic_string filename k \<notin> set new))) \<and>
         (\<forall>rd' start' s2. N < start' \<longrightarrow>
            (\<exists>new. events (snd (search_for_magic rd' filename start' magic_string s2)) = events s2 @ new \<and>
               (\<forall>k. k \<le> N \<longrightarrow> InfoMagicFound magic_string filename k \<notin> set new)))"
proof -
  let ?s' = "log (InfoMagicFound magic_string filename N)
               (s\<lparr>curr_dir_dict := AList.update filename N (curr_dir_dict s)\<rparr>)"
  have loop: "search_loop filename magic_string ([] # lines) start_line s = ?s'"
  proof (rule search_loop_found)
    show "start_line \<le> N" by fact
    show "N < length ([] # lines)" using assms(4) by simp
    show "str_contains magic_string (([] # lines) ! N)"
      using assms(2,3,5) by (cases N) simp_all
    show "\<forall>j. start_line \<le> j \<and> j < N \<longrightarrow> \<not> str_contains magic_string (([] # lines) ! j)"
    proof (intro allI impI)
      fix j assume j: "start_line \<le> j \<and> j < N"
      with assms(2) obtain j' where "j = Suc j'" by (cases j) auto
      with j assms(6) show "\<not> str_contains magic_string (([] # lines) ! j)" by auto
    qed
  qed
  with assms(1) have scan: "search_for_magic rd filename start_line magic_string s = (None, ?s')"
    by (simp add: search_for_magic_def)
  have listed: "filter_extension rd magic_string extension [filename] s = (None, ?s')"
    if "dict_get (curr_dir_dict s) filename 0 + 1 = start_line"
      "extension = None \<or> Some (splitext_ext filename) = extension"
    using that scan by (simp add: filter_extension_head)
  have stored: "map_of (curr_dir_dict ?s') filename = Some N"
    by (simp add: update_conv')
  have later: "\<exists>new. events t' = events t @ new \<and>
               (\<forall>k. k \<le> N \<longrightarrow> InfoMagicFound magic_string filename k \<notin> set new)"
    if "map_of (curr_dir_dict t) filename = Some n" "N \<le> n"
      "filter_extension rd' magic_string extension' files t = (r, t')"
    for rd' extension' files t n r t'
  proof -
    from filter_extension_no_rematch [OF that(3,1)] that(2) show ?thesis
      by (meson le_trans)
  qed
  have next_cycle: "\<exists>new. events s' = events s @ [InfoMagicFound magic_string filename N] @ new \<and>
               (\<forall>k. k \<le> N \<longrightarrow> InfoMagicFound magic_string filename k \<notin> set new)"
    if "filter_extension rd' magic_string extension' files ?s' = (r, s')"
    for rd' extension' files r s'
    using later [OF stored le_refl that] by simp
  have direct: "\<exists>new. events (snd (search_for_magic rd' filename start' magic_string s2)) = events s2 @ new \<and>
               (\<forall>k. k \<le> N \<longrightarrow> InfoMagicFound magic_string filename k \<notin> set new)"
    if "N < start'" for rd' start' s2
  proof (cases "rd' filename")
    case (Inl e)
    then show ?thesis by (simp add: search_for_magic_def)
  next
    case (Inr ls)
    from search_loop_events [of filename magic_string "[] # ls" start' s2] that
    have "\<exists>new. events (search_loop filename magic_string ([] # ls) start' s2) = events s2 @ new \<and>
               (\<forall>k. k \<le> N \<longrightarrow> InfoMagicFound magic_string filename k \<notin> set new)"
      by auto
    with Inr show ?thesis by (simp add: search_for_magic_def)
  qed
  from scan listed next_cycle later direct show ?thesis by blast
qed

theorem first_match_reported_once_witness:
  "filter_extension (\<lambda>f. Inr [''x'', ''FOO'', ''FOO'']) ''FOO'' None [''d/a.log''] init_state =
     (None, init_state\<lparr>curr_dir_dict := [(''d/a.log'', 2)],
                        events := [InfoMagicFound ''FOO'' ''d/a.log'' 2]\<rparr>) \<and>
   filter_extension (\<lambda>f. Inr [''x'', ''FOO'', ''FOO'']) ''FOO'' None [''d/a.log'']
       (init_state\<lparr>curr_dir_dict := [(''d/a.log'', 2)],
                   events := [InfoMagicFound ''FOO'' ''d/a.log'' 2]\<rparr>) =
     (None, init_state\<lparr>curr_dir_dict := [(''d/a.log'', 3)],
                        events := [InfoMagicFound ''FOO'' ''d/a.log'' 2,
                                   InfoMagicFound ''FOO'' ''d/a.log'' 3]\<rparr>) \<and>
   filter_extension (\<lambda>f. Inr [''x'', ''FOO'', ''FOO'']) ''FOO'' None [''d/a.log'']
       (init_state\<lparr>curr_dir_dict := [(''d/a.log'', 3)],
                   events := [InfoMagicFound ''FOO'' ''d/a.log'' 2,
                              InfoMagicFound ''FOO'' ''d/a.log'' 3]\<rparr>) =
     (None, init_state\<lparr>curr_dir_dict := [(''d/a.log'', 3)],
                        events := [InfoMagicFound ''FOO'' ''d/a.log'' 2,
                                   InfoMagicFound ''FOO'' ''d/a.log'' 3]\<rparr>)"
proof -
  have first: "\<forall>j. (1::nat) \<le> j \<and> j < 2 \<longrightarrow> \<not> str_contains ''FOO'' ([''x'', ''FOO'', ''FOO''] ! (j - 1))"
  proof (intro allI impI)
    fix j :: nat assume "1 \<le> j \<and> j < 2"
    then have "j = 1" by simp
    then show "\<not> str_contains ''FOO'' ([''x'', ''FOO'', ''FOO''] ! (j - 1))" by simp
  qed
  have occ: "str_contains ''FOO'' ([''x'', ''FOO'', ''FOO''] ! (2 - 1))" by simp
  from first_match_reported_once [of "\<lambda>f. Inr [''x'', ''FOO'', ''FOO'']" "''d/a.log''"
      "[''x'', ''FOO'', ''FOO'']" 1 2 "''FOO''" init_state None, OF refl _ _ _ occ first]
  show ?thesis
    by (simp add: init_state_def log_def dict_get_def search_for_magic_def search_loop.simps)
qed

text \<open>
  Claim C2, as stated, fails for an occurrence that is not the first one of the scan: with
  the magic string on lines 1 and 2 and a scan from line 1, line 2 holds the magic string
  and the scan starts before it, but the match reported is line 1 and there is no event for
  line 2 in this scan.
\<close>

theorem later_occurrence_counterexample:
  "str_contains ''FOO'' ([''FOO'', ''FOO''] ! (2 - 1)) \<and>
   search_for_magic (\<lambda>f. Inr [''FOO'', ''FOO'']) ''d/a.log'' 1 ''FOO'' init_state =
     (None, init_state\<lparr>curr_dir_dict := [(''d/a.log'', 1)],
                        events := [InfoMagicFound ''FOO'' ''d/a.log'' 1]\<rparr>) \<and>
   InfoMagicFound ''FOO'' ''d/a.log'' 2 \<notin>
     set (events (snd (search_for_magic (\<lambda>f. Inr [''FOO'', ''FOO'']) ''d/a.log'' 1 ''FOO'' init_state)))"
  by (simp add: search_for_magic_def search_loop.simps init_state_def log_def)

section \<open>Claim C3: files added to the watch directory\<close>

text \<open>
  Claim C3 against the code. \<open>search_for_magic\<close> writes the entry of a file inside its
  loop over the lines, and \<open>detect_added_files\<close> announces the keys of \<open>curr_dir_dict\<close>
  that the snapshot lacks. A file with no line gets no entry: the cycle that first lists
  \<open>d/a.log\<close>, empty, logs no addition, and the addition is logged by the later cycle in
  which the file has its first line.
\<close>

theorem empty_file_not_announced:
  "watch_directory (Some ''d'') (Some ''FOO'') None 1 [env_empty_dir, env_empty_file, env_one_line]
       init_state =
     (Running, \<lparr>curr_dir_dict = [(''d/a.log'', 1)], prev_dir_dict = [(''d/a.log'', 1)],
                exit_program = False,
                events = [DebugCurrDict [], Sleep 1,
                          DebugCurrDict [], Sleep 1,
                          InfoAdded ''d/a.log'', DebugCurrDict [(''d/a.log'', 1)], Sleep 1],
                stdout = []\<rparr>)"
  by (simp add: run_defs env_empty_dir_def env_empty_file_def env_one_line_def)

text \<open>
  The part of claim C3 that holds: a file with at least one line that passes the filter and
  is not in the previous snapshot is announced once by the cycle that scans it, when that
  cycle completes.
\<close>

lemma new_file_logged_once:
  assumes "try_body path magic_string extension interval e s = (None, s')"
    and "watch_files e = Inr files" "file \<in> set files"
    and "extension = None \<or> Some (splitext_ext file) = extension"
    and "readlines e file = Inr (l # ls)"
    and "file \<notin> set (keys (prev_dir_dict s))"
    and "distinct (keys (curr_dir_dict s))"
  shows "file \<in> set (keys (curr_dir_dict s')) \<and>
         (\<exists>new. events s' = events s @ new \<and> count_list new (InfoAdded file) = 1)"
proof -
  from assms(1) obtain fs s1 s2 scan where run: "watch_files e = Inr fs"
    "filter_extension (readlines e) (case magic_string of Some m \<Rightarrow> m | None \<Rightarrow> []) extension fs s
       = (None, s1)"
    "detect_removed_loop (keys (prev_dir_dict s)) fs s1 = (None, s2)"
    "curr_dir_dict s' = curr_dir_dict s2" "prev_dir_dict s' = curr_dir_dict s2"
    "events s1 = events s @ scan" "\<forall>ev \<in> set scan. is_match_log ev"
    "events s' = events s @ scan @
       map InfoRemoved (filter (\<lambda>k. k \<notin> set fs) (keys (prev_dir_dict s))) @
       map InfoAdded (filter (\<lambda>k. k \<notin> set (keys (prev_dir_dict s))) (keys (curr_dir_dict s2))) @
       [DebugCurrDict (curr_dir_dict s2), Sleep interval]"
    by (rule try_body_completed)
  from try_body_completed_keys(1) [OF assms(1,2)] assms(3-6)
  have tracked: "file \<in> set (keys (curr_dir_dict s'))" by auto
  have "distinct (keys (curr_dir_dict s2))"
    using run(3) filter_extension_distinct [OF run(2) assms(7)] by (rule detect_removed_loop_distinct)
  with tracked run(4) have "count_list (keys (curr_dir_dict s2)) file = 1"
    by (simp add: count_list_distinct)
  with assms(6) have once:
    "count_list (filter (\<lambda>k. k \<notin> set (keys (prev_dir_dict s))) (keys (curr_dir_dict s2))) file = 1"
    by (simp add: count_list_filter)
  have "count_list scan (InfoAdded file) = 0"
    using run(7) by (rule count_list_match_logs) (simp add: is_match_log_def)
  moreover have "count_list (map InfoRemoved
      (filter (\<lambda>k. k \<notin> set fs) (keys (prev_dir_dict s)))) (InfoAdded file) = 0"
    by (auto simp: count_list_0_iff)
  ultimately have "count_list (scan @
       map InfoRemoved (filter (\<lambda>k. k \<notin> set fs) (keys (prev_dir_dict s))) @
       map InfoAdded (filter (\<lambda>k. k \<notin> set (keys (prev_dir_dict s))) (keys (curr_dir_dict s2))) @
       [DebugCurrDict (curr_dir_dict s2), Sleep interval]) (InfoAdded file) = 1"
    using once by (simp add: count_list_added)
  with run(8) tracked show ?thesis by blast
qed

section \<open>Claim C4: files removed from the watch directory\<close>

text \<open>
  Claim C4 against the code. The removal pass walks the keys of the previous snapshot
  \<open>prev_dir_dict\<close>, which is renewed at the end of a completed cycle only, while the scan
  writes \<open>curr_dir_dict\<close> as it goes. The first iteration reads \<open>d/a.log\<close> and is then
  aborted by the vanished \<open>d/b.log\<close>, so \<open>d/a.log\<close> is in the watch state and not in
  the snapshot. The second iteration is a completed cycle over the directory without
  \<open>d/a.log\<close>: the entry of \<open>d/a.log\<close> stays in the watch state and goes into the new
  snapshot, no removal is logged, and an addition is.
\<close>

theorem stale_entry_kept_when_file_removed:
  "watch_directory (Some ''d'') (Some ''FOO'') None 1 [env_partial, env_empty_dir] init_state =
     (Running, \<lparr>curr_dir_dict = [(''d/a.log'', 2)], prev_dir_dict = [(''d/a.log'', 2)],
                exit_program = False,
                events = [InfoMagicFound ''FOO'' ''d/a.log'' 2, ErrorDirNotFound (Some ''d''), Sleep 5,
                          InfoAdded ''d/a.log'', DebugCurrDict [(''d/a.log'', 2)], Sleep 1],
                stdout = []\<rparr>)"
  by (simp add: run_defs env_partial_def env_empty_dir_def)

text \<open>
  The part of claim C4 that holds: for a path that has an entry in the previous snapshot and
  is not in the listing, a cycle that completes deletes the entry from \<open>curr_dir_dict\<close>,
  so that the snapshot taken at the end of the cycle lacks it too, and logs the removal
  exactly once.
\<close>

lemma removed_entry_deleted_and_logged_once:
  assumes "try_body path magic_string extension interval e s = (None, s')"
    and "watch_files e = Inr files"
    and "file \<in> set (keys (prev_dir_dict s))" "file \<notin> set files"
  shows "file \<notin> set (keys (curr_dir_dict s')) \<and> file \<notin> set (keys (prev_dir_dict s')) \<and>
         (\<exists>new. events s' = events s @ new \<and> count_list new (InfoRemoved file) = 1)"
proof -
  from assms(1) obtain fs s1 s2 scan where run: "watch_files e = Inr fs"
    "filter_extension (readlines e) (case magic_string of Some m \<Rightarrow> m | None \<Rightarrow> []) extension fs s
       = (None, s1)"
    "detect_removed_loop (keys (prev_dir_dict s)) fs s1 = (None, s2)"
    "curr_dir_dict s' = curr_dir_dict s2" "prev_dir_dict s' = curr_dir_dict s2"
    "events s1 = events s @ scan" "\<forall>ev \<in> set scan. is_match_log ev"
    "events s' = events s @ scan @
       map InfoRemoved (filter (\<lambda>k. k \<notin> set fs) (keys (prev_dir_dict s))) @
       map InfoAdded (filter (\<lambda>k. k \<notin> set (keys (prev_dir_dict s))) (keys (curr_dir_dict s2))) @
       [DebugCurrDict (curr_dir_dict s2), Sleep interval]"
    by (rule try_body_completed)
  from run(1) assms(2) have fs: "fs = files" by simp
  from try_body_completed_keys [OF assms(1,2)] assms(3,4)
  have gone: "file \<notin> set (keys (curr_dir_dict s'))" "file \<notin> set (keys (prev_dir_dict s'))"
    by auto
  have once: "count_list (filter (\<lambda>k. k \<notin> set fs) (keys (prev_dir_dict s))) file = 1"
    using run(3) assms(3,4) unfolding fs by (rule detect_removed_loop_once)
  have "count_list scan (InfoRemoved file) = 0"
    using run(7) by (rule count_list_match_logs) (simp add: is_match_log_def)
  moreover have "count_list (map InfoAdded
      (filter (\<lambda>k. k \<notin> set (keys (prev_dir_dict s))) (keys (curr_dir_dict s2)))) (InfoRemoved file) = 0"
    by (auto simp: count_list_0_iff)
  ultimately have "count_list (scan @
       map InfoRemoved (filter (\<lambda>k. k \<notin> set fs) (keys (prev_dir_dict s))) @
       map InfoAdded (filter (\<lambda>k. k \<notin> set (keys (prev_dir_dict s))) (keys (curr_dir_dict s2))) @
       [DebugCurrDict (curr_dir_dict s2), Sleep interval]) (InfoRemoved file) = 1"
    using once by (simp add: count_list_removed)
  with run(8) gone show ?thesis by blast
qed


lemma tracked_file_removed:
  "''d/a.log'' \<in> set (keys (prev_dir_dict tracked_state)) \<and>
   watch_files env_empty_dir = Inr [] \<and>
   try_body (Some ''d'') (Some ''FOO'') None 1 env_empty_dir tracked_state =
     (None, tracked_state\<lparr>curr_dir_dict := [], prev_dir_dict := [],
                           events := [InfoRemoved ''d/a.log'', DebugCurrDict [], Sleep 1]\<rparr>)"
  using removed_entry_deleted_and_logged_once [of "Some ''d''" "Some ''FOO''" None 1 env_empty_dir
      tracked_state "snd (try_body (Some ''d'') (Some ''FOO'') None 1 env_empty_dir tracked_state)"
      "[]" "''d/a.log''"]
  by (simp add: run_defs tracked_state_def env_empty_dir_def)

text \<open>
  A file that never had a line has no entry to delete, and its removal is not logged.
\<close>

lemma empty_file_removal_not_logged:
  "watch_directory (Some ''d'') (Some ''FOO'') None 1 [env_empty_file, env_empty_dir] init_state =
     (Running, \<lparr>curr_dir_dict = [], prev_dir_dict = [], exit_program = False,
                events = [DebugCurrDict [], Sleep 1, DebugCurrDict [], Sleep 1],
                stdout = []\<rparr>)"
  by (simp add: run_defs env_empty_dir_def env_empty_file_def)

section \<open>Claim C5: two cycles over an unchanged directory\<close>

text \<open>
  Claim C5 against the code. The first iteration reads \<open>d/a.log\<close> and is aborted by the
  vanished \<open>d/b.log\<close>, which leaves \<open>d/a.log\<close> in the watch state and not in the
  snapshot; then the directory is empty and stays so. The second and third iterations are
  completed cycles over the same empty directory: the second logs \<open>d/a.log\<close> as added,
  and the third, the second cycle over the unchanged directory, logs its removal.
\<close>

theorem stale_entry_removed_on_second_cycle:
  "watch_directory (Some ''d'') (Some ''FOO'') None 1 [env_partial, env_empty_dir, env_empty_dir]
       init_state =
     (Running, \<lparr>curr_dir_dict = [], prev_dir_dict = [], exit_program = False,
                events = [InfoMagicFound ''FOO'' ''d/a.log'' 2, ErrorDirNotFound (Some ''d''), Sleep 5,
                          InfoAdded ''d/a.log'', DebugCurrDict [(''d/a.log'', 2)], Sleep 1,
                          InfoRemoved ''d/a.log'', DebugCurrDict [], Sleep 1],
                stdout = []\<rparr>)"
  by (simp add: run_defs env_partial_def env_empty_dir_def)

text \<open>
  The part of claim C5 that holds: when, before the first of the two cycles, every path in
  \<open>curr_dir_dict\<close> is in the snapshot or in the listing (as at the start, and after every
  completed cycle), the second of two cycles that complete over the same files with the
  same contents logs no addition and no removal.
\<close>

lemma unchanged_directory_no_added_removed:
  assumes "try_body path magic_string extension interval e1 s = (None, s1)"
    and "try_body path magic_string extension interval e2 s1 = (None, s2)"
    and "watch_files e1 = Inr files1" "watch_files e2 = Inr files2" "set files1 = set files2"
    and "readlines e1 = readlines e2"
    and "set (keys (curr_dir_dict s)) \<subseteq> set (keys (prev_dir_dict s)) \<union> set files1"
  shows "\<exists>new. events s2 = events s1 @ new \<and>
           (\<forall>f. InfoAdded f \<notin> set new \<and> InfoRemoved f \<notin> set new)"
proof -
  note k1 = try_body_completed_keys [OF assms(1,3)]
  note k2 = try_body_completed_keys [OF assms(2,4)]
  from assms(2) obtain fs t1 t2 scan where "watch_files e2 = Inr fs"
    "filter_extension (readlines e2) (case magic_string of Some m \<Rightarrow> m | None \<Rightarrow> []) extension fs s1
       = (None, t1)"
    "detect_removed_loop (keys (prev_dir_dict s1)) fs t1 = (None, t2)"
    "curr_dir_dict s2 = curr_dir_dict t2" "prev_dir_dict s2 = curr_dir_dict t2"
    "events t1 = events s1 @ scan" "\<forall>ev \<in> set scan. is_match_log ev"
    "events s2 = events s1 @ scan @
       map InfoRemoved (filter (\<lambda>k. k \<notin> set fs) (keys (prev_dir_dict s1))) @
       map InfoAdded (filter (\<lambda>k. k \<notin> set (keys (prev_dir_dict s1))) (keys (curr_dir_dict t2))) @
       [DebugCurrDict (curr_dir_dict t2), Sleep interval]"
    by (rule try_body_completed)
  note run = this(1,4,7,8)
  from run(1) assms(4) have fs: "fs = files2" by simp
  have listed: "\<forall>k \<in> set (keys (prev_dir_dict s1)). k \<in> set files2"
    using k1 assms(5,7) by auto
  then have no_removed: "filter (\<lambda>k. k \<notin> set fs) (keys (prev_dir_dict s1)) = []"
    unfolding fs by (simp add: filter_empty_conv)
  have "set (keys (curr_dir_dict s2)) \<subseteq> set (keys (prev_dir_dict s1))"
    using k1 k2(1) assms(5,6) by auto
  then have no_added:
    "filter (\<lambda>k. k \<notin> set (keys (prev_dir_dict s1))) (keys (curr_dir_dict t2)) = []"
    unfolding run(2) by (auto simp: filter_empty_conv)
  from run(4) have ev: "events s2 = events s1 @ scan @ [DebugCurrDict (curr_dir_dict t2), Sleep interval]"
    unfolding no_removed no_added by simp
  have "\<forall>f. InfoAdded f \<notin> set (scan @ [DebugCurrDict (curr_dir_dict t2), Sleep interval]) \<and>
            InfoRemoved f \<notin> set (scan @ [DebugCurrDict (curr_dir_dict t2), Sleep interval])"
    using run(3) by (auto simp: is_match_log_def)
  with ev show ?thesis by blast
qed

lemma unchanged_file_two_cycles:
  "try_body (Some ''d'') (Some ''FOO'') None 1 env_grown init_state =
     (None, \<lparr>curr_dir_dict = [(''d/a.log'', 2)], prev_dir_dict = [(''d/a.log'', 2)],
             exit_program = False,
             events = [InfoMagicFound ''FOO'' ''d/a.log'' 2, InfoAdded ''d/a.log'',
                       DebugCurrDict [(''d/a.log'', 2)], Sleep 1],
             stdout = []\<rparr>) \<and>
   try_body (Some ''d'') (Some ''FOO'') None 1 env_grown
       \<lparr>curr_dir_dict = [(''d/a.log'', 2)], prev_dir_dict = [(''d/a.log'', 2)],
             exit_program = False,
             events = [InfoMagicFound ''FOO'' ''d/a.log'' 2, InfoAdded ''d/a.log'',
                       DebugCurrDict [(''d/a.log'', 2)], Sleep 1],
             stdout = []\<rparr> =
     (None, \<lparr>curr_dir_dict = [(''d/a.log'', 3)], prev_dir_dict = [(''d/a.log'', 3)],
             exit_program = False,
             events = [InfoMagicFound ''FOO'' ''d/a.log'' 2, InfoAdded ''d/a.log'',
                       DebugCurrDict [(''d/a.log'', 2)], Sleep 1,
                       DebugCurrDict [(''d/a.log'', 3)], Sleep 1],
             stdout = []\<rparr>)"
  using unchanged_directory_no_added_removed [of "Some ''d''" "Some ''FOO''" None 1 env_grown init_state
      "snd (try_body (Some ''d'') (Some ''FOO'') None 1 env_grown init_state)" env_grown
      "snd (try_body (Some ''d'') (Some ''FOO'') None 1 env_grown
         (snd (try_body (Some ''d'') (Some ''FOO'') None 1 env_grown init_state)))"
      "[''d/a.log'']" "[''d/a.log'']"]
  by (simp add: run_defs env_grown_def)

section \<open>Claim C6: line counts do not decrease\<close>



section \<open>Claim C7: invalid configuration\<close>

text \<open>
  Claim C7 against the code. \<open>alert_user\<close> tests \<open>extension[0]\<close>, which raises
  \<open>IndexError\<close> for the empty string: an extension filter that is empty does not begin
  with a dot, and the loop ends on it without a retry, but what it logs is the message of
  the last \<open>except\<close> clause, for unexpected errors, and not the configuration error that
  the \<open>ExtensionError\<close> clause writes for an extension such as \<open>log\<close>.
\<close>

theorem empty_extension_logged_as_unexpected_error:
  "alert_user (Some ''d'') (Some ''FOO'') (Some []) = Some IndexError \<and>
   watch_directory (Some ''d'') (Some ''FOO'') (Some []) 1 [env_grown, env_grown] init_state =
     (Returned, init_state\<lparr>events := [ErrorSomethingWrong IndexError]\<rparr>) \<and>
   \<not> is_config_error_log (ErrorSomethingWrong IndexError) \<and>
   watch_directory (Some ''d'') (Some ''FOO'') (Some ''log'') 1 [env_grown, env_grown] init_state =
     (Returned, init_state\<lparr>events := [ErrorExtension (Some ''log'')]\<rparr>)"
  by (simp add: run_defs env_grown_def is_config_error_log_def)

text \<open>
  The part of claim C7 that holds: on every invalid configuration the first iteration logs
  one error and the function returns, with nothing listed, scanned or slept; the error is a
  configuration error unless the magic string is there and the extension is empty.
\<close>

lemma invalid_configuration_returns:
  assumes "\<not> truthy magic_string \<or> \<not> truthy path \<or> (\<exists>x. extension = Some x \<and> \<not> prefix ''.'' x)"
    and "\<not> exit_program s"
  shows "\<exists>ev. is_error_log ev \<and>
           (\<not> truthy magic_string \<or> extension \<noteq> Some [] \<longrightarrow> is_config_error_log ev) \<and>
           ev = (if \<not> truthy magic_string then ErrorNoMagic
                 else if extension = Some [] then ErrorSomethingWrong IndexError
                 else if \<exists>x. extension = Some x \<and> \<not> prefix ''.'' x then ErrorExtension extension
                 else ErrorNoDirectory) \<and>
           watch_directory path magic_string extension interval (e # es) s =
             (Returned, fold signal_handler (signals e) (log ev s))"
  using assms(2) alert_user_raises [OF assms(1)]
  by (auto simp: iteration_def try_body_def is_error_log_def is_config_error_log_def)

lemma empty_magic_string_returns:
  "\<not> truthy (Some []) \<and> \<not> exit_program init_state \<and>
   watch_directory (Some ''d'') (Some []) None 1 [env_missing, env_missing] init_state =
     (Returned, init_state\<lparr>events := [ErrorNoMagic]\<rparr>)"
  using invalid_configuration_returns [of "Some []" "Some ''d''" None init_state 1 env_missing "[env_missing]"]
  by (simp add: truthy_def init_state_def env_missing_def log_def)

section \<open>Claim C8: watch directory not found\<close>

lemma iteration_dir_missing:
  assumes "alert_user path magic_string extension = None" "watch_files e = Inl FileNotFoundError"
  shows "iteration path magic_string extension interval e s =
           (Continue, log (Sleep 5) (log (ErrorDirNotFound path) s))"
  using assms by (simp add: iteration_def try_body_def)

lemma dir_missing_run:
  assumes "truthy magic_string" "truthy path"
    "extension = None \<or> (\<exists>cs. extension = Some (CHR ''.'' # cs))"
    and "\<not> exit_program s"
    and "\<forall>e \<in> set es. watch_files e = Inl FileNotFoundError \<and> signals e = []"
  shows "watch_directory path magic_string extension interval (es @ es') s =
           watch_directory path magic_string extension interval es'
             (s\<lparr>events := events s @ concat (replicate (length es) [ErrorDirNotFound path, Sleep 5])\<rparr>)"
  using assms(4,5)
proof (induction es arbitrary: s)
  case Nil
  show ?case by simp
next
  case (Cons e es)
  have it: "iteration path magic_string extension interval e s =
              (Continue, log (Sleep 5) (log (ErrorDirNotFound path) s))"
    using Cons.prems(2) alert_user_valid [OF assms(1-3)] by (simp add: iteration_dir_missing)
  have "\<not> exit_program (log (Sleep 5) (log (ErrorDirNotFound path) s))"
    using Cons.prems(1) by simp
  from Cons.IH [OF this] Cons.prems(2) it Cons.prems(1)
  show ?case by (simp add: log_def)
qed


text \<open>
  Claim C8. With a valid configuration, as long as \<open>os.listdir\<close> answers
  \<open>FileNotFoundError\<close> and no signal arrives, every iteration logs the error and sleeps
  5 seconds, and the loop is still running after any number of them. Both dictionaries are
  as they were, so once the directory is back the loop goes on from the state it had before
  the outage.
\<close>

theorem directory_missing_retries:
  assumes "truthy magic_string" "truthy path"
    "extension = None \<or> (\<exists>cs. extension = Some (CHR ''.'' # cs))"
    and "\<not> exit_program s"
    and "\<forall>e \<in> set es. watch_files e = Inl FileNotFoundError \<and> signals e = []"
  shows "watch_directory path magic_string extension interval es s =
           (Running, s\<lparr>events := events s @
                        concat (replicate (length es) [ErrorDirNotFound path, Sleep 5])\<rparr>) \<and>
         (\<forall>es'. watch_directory path magic_string extension interval (es @ es') s =
           watch_directory path magic_string extension interval es'
             (s\<lparr>events := events s @
                  concat (replicate (length es) [ErrorDirNotFound path, Sleep 5])\<rparr>))"
proof -
  have run: "watch_directory path magic_string extension interval (es @ es') s =
           watch_directory path magic_string extension interval es'
             (s\<lparr>events := events s @
                  concat (replicate (length es) [ErrorDirNotFound path, Sleep 5])\<rparr>)" for es'
    by (rule dir_missing_run [OF assms])
  from run [of "[]"] assms(4) show ?thesis
    using run by simp
qed

theorem directory_missing_retries_witness:
  "truthy (Some ''FOO'') \<and> truthy (Some ''d'') \<and> \<not> exit_program init_state \<and>
   watch_files env_missing = Inl FileNotFoundError \<and> signals env_missing = [] \<and>
   watch_directory (Some ''d'') (Some ''FOO'') None 1 [env_missing, env_missing] init_state =
     (Running, init_state\<lparr>events := [ErrorDirNotFound (Some ''d''), Sleep 5,
                                       ErrorDirNotFound (Some ''d''), Sleep 5]\<rparr>)"
  using directory_missing_retries [of "Some ''FOO''" "Some ''d''" None init_state
      "[env_missing, env_missing]" 1]
  by (simp add: truthy_def init_state_def env_missing_def)

section \<open>Claim C10: cancellation\<close>

lemma fold_signal_handler_exit:
  "exit_program (fold signal_handler sigs s) = (exit_program s \<or> sigs \<noteq> [])"
  by (induction sigs arbitrary: s) auto

lemma watch_directory_exit:
  "exit_program s \<Longrightarrow> watch_directory p m x i es s = (Returned, s)"
  by (cases es) simp_all

text \<open>
  Claim C10. A cycle, a scan of the listing and a scan of one file give the same result
  when \<open>exit_program\<close> is set before they start as when it is set after they end: the
  cycle in progress runs to completion. An iteration during which a signal arrives is the
  last one, and with \<open>exit_program\<close> set at the head of the loop no cycle begins. A second
  delivery leaves the flag set and changes \<open>stdout\<close> only.
\<close>

theorem cancellation_at_cycle_boundaries:
  "iteration p m x i e (signal_handler sg s) =
     (case iteration p m x i e s of (c, s') \<Rightarrow> (c, signal_handler sg s')) \<and>
   filter_extension rd mg x fs (signal_handler sg s) =
     (case filter_extension rd mg x fs s of (r, s') \<Rightarrow> (r, signal_handler sg s')) \<and>
   search_for_magic rd f n mg (signal_handler sg s) =
     (case search_for_magic rd f n mg s of (r, s') \<Rightarrow> (r, signal_handler sg s')) \<and>
   (\<not> exit_program s \<and> signals e \<noteq> [] \<longrightarrow>
      watch_directory p m x i (e # es) s =
        (Returned, fold signal_handler (signals e) (snd (iteration p m x i e s)))) \<and>
   (exit_program s \<longrightarrow> watch_directory p m x i es s = (Returned, s)) \<and>
   signal_handler sg' (signal_handler sg s) = (signal_handler sg s)\<lparr>stdout := stdout s @ [sg, sg']\<rparr>"
proof -
  have "watch_directory p m x i (e # es) s =
        (Returned, fold signal_handler (signals e) (snd (iteration p m x i e s)))"
    if "\<not> exit_program s" "signals e \<noteq> []"
  proof (cases "iteration p m x i e s")
    case (Pair c s')
    show ?thesis
    proof (cases c)
      case Break
      with Pair that show ?thesis by simp
    next
      case Continue
      have "exit_program (fold signal_handler (signals e) s')"
        using that(2) by (simp add: fold_signal_handler_exit)
      with Pair Continue that show ?thesis by (simp add: watch_directory_exit)
    qed
  qed
  moreover have "signal_handler sg' (signal_handler sg s) =
      (signal_handler sg s)\<lparr>stdout := stdout s @ [sg, sg']\<rparr>"
    by (simp add: signal_handler_def)
  ultimately show ?thesis
    by (simp add: iteration_signal filter_extension_signal search_for_magic_signal
        watch_directory_exit)
qed

theorem cancellation_at_cycle_boundaries_witness:
  "\<not> exit_program init_state \<and> signals env_signalled \<noteq> [] \<and>
   watch_directory (Some ''d'') (Some ''FOO'') None 1 [env_signalled, env_missing] init_state =
     (Returned, \<lparr>curr_dir_dict = [(''d/a.log'', 2)], prev_dir_dict = [(''d/a.log'', 2)],
                 exit_program = True,
                 events = [InfoMagicFound ''FOO'' ''d/a.log'' 2, InfoAdded ''d/a.log'',
                           DebugCurrDict [(''d/a.log'', 2)], Sleep 1],
                 stdout = [SIGINT, SIGINT]\<rparr>) \<and>
   exit_program (signal_handler SIGTERM init_state) \<and>
   watch_directory (Some ''d'') (Some ''FOO'') None 1 [env_signalled]
       (signal_handler SIGTERM init_state) =
     (Returned, init_state\<lparr>exit_program := True, stdout := [SIGTERM]\<rparr>)"
  using cancellation_at_cycle_boundaries [of "Some ''d''" "Some ''FOO''" None 1 env_signalled
      SIGINT init_state "readlines env_signalled" "''FOO''" "[]" "''d/a.log''" 1 "[env_missing]" SIGINT]
    cancellation_at_cycle_boundaries [of "Some ''d''" "Some ''FOO''" None 1 env_signalled
      SIGINT "signal_handler SIGTERM init_state" "readlines env_signalled" "''FOO''" "[]" "''d/a.log''" 1
      "[env_signalled]" SIGINT]
  by (simp add: init_state_def env_signalled_def env_missing_def iteration_def try_body_def
      alert_user_def truthy_def search_for_magic_def search_loop.simps dict_get_def log_def
      detect_removed_files_def detect_added_files_def keys_def sleep_def signal_handler_def)

end
